theory Spec2Isabelle
  imports Main
begin

unbundle bit_operations_syntax

section \<open>The asynchronous IPC framework of uspace/lib/c/generic/async.c\<close>

text \<open>
  The development embeds the functions of \<^verbatim>\<open>async.c\<close> that route incoming calls to
  connection fibrils, keep the sorted timeout list, match replies to outbound messages
  and accept written data. A fibril that calls \<^verbatim>\<open>fibril_switch(FIBRIL_TO_MANAGER)\<close> is
  cut at that call: the part of the function before the switch returns \<open>Suspended\<close>, and
  the part after it is a second function (suffix \<open>_resume\<close>) that runs when the fibril is
  scheduled again.
\<close>

subsection \<open>Scalar types and constants of the headers\<close>

type_synonym ipcarg_t = nat
type_synonym ipc_callid_t = nat
type_synonym fid_t = nat
type_synonym suseconds_t = int

text \<open>An address; \<open>0\<close> is \<^verbatim>\<open>NULL\<close>.\<close>

type_synonym ptr = nat

text \<open>
  Modelled from the spec: \<^verbatim>\<open>errno.h\<close> is not among the sources. The error codes are the
  ones the specification lists as surfaced at the boundary, kept symbolic; \<open>EOK\<close> is
  the code the sources also write as the literal zero ("Zero on success").
\<close>

datatype errno = EOK | ENOMEM | ENOENT | EINVAL | EHANGUP | ELIMIT | ETIMEOUT | EFORWARD | EBADMEM

text \<open>
  The method numbers and the notification bit of \<^verbatim>\<open>ipc/ipc.h\<close>, which is not among the
  sources either, are a parameter of every function that reads them. The header also
  declares \<^verbatim>\<open>ipcarg_t\<close>, an unsigned machine word; \<open>ipcarg_bits\<close> is its width.
\<close>

record ipc_h =
  IPC_M_PHONE_HUNGUP :: ipcarg_t
  IPC_M_CONNECT_ME :: ipcarg_t
  IPC_M_CONNECT_ME_TO :: ipcarg_t
  IPC_M_DATA_WRITE :: ipcarg_t
  IPC_CALLID_NOTIFICATION :: ipc_callid_t
  ipcarg_bits :: nat

text \<open>
  The conversion of an \<^verbatim>\<open>int\<close> to \<^verbatim>\<open>ipcarg_t\<close>, as an assignment of the one to the
  other performs it: the value is reduced modulo \<open>2 ^ ipcarg_bits\<close>, so a negative status
  wraps around.
\<close>

definition ipcarg_of_int :: "ipc_h \<Rightarrow> int \<Rightarrow> ipcarg_t" where
  "ipcarg_of_int K v = nat (v mod 2 ^ ipcarg_bits K)"

text \<open>
  Modelled from the spec: \<^verbatim>\<open>ipc_call_t\<close> is declared in \<^verbatim>\<open>ipc/ipc.h\<close>; it is the
  fixed-size call record carrying a method, five payload words and the hash of the
  phone the call arrived on. \<^verbatim>\<open>IPC_GET_METHOD\<close>, \<^verbatim>\<open>IPC_GET_ARG2\<close> and
  \<^verbatim>\<open>IPC_GET_ARG5\<close> are the field selectors, \<^verbatim>\<open>IPC_SET_METHOD\<close> the update of
  \<open>imethod\<close> (the method word of the call).
\<close>

record ipc_call_t =
  imethod :: ipcarg_t
  arg1 :: ipcarg_t
  arg2 :: ipcarg_t
  arg3 :: ipcarg_t
  arg4 :: ipcarg_t
  arg5 :: ipcarg_t
  in_phone_hash :: ipcarg_t

text \<open>\<^verbatim>\<open>memset(call, 0, sizeof(ipc_call_t))\<close>.\<close>

definition zero_call :: ipc_call_t where
  "zero_call = \<lparr>imethod = 0, arg1 = 0, arg2 = 0, arg3 = 0, arg4 = 0, arg5 = 0, in_phone_hash = 0\<rparr>"

text \<open>
  Modelled from the spec: \<^verbatim>\<open>struct timeval\<close> and \<^verbatim>\<open>tv_add\<close>, \<^verbatim>\<open>tv_gt\<close>,
  \<^verbatim>\<open>tv_gteq\<close> live in \<^verbatim>\<open>sys/time.h\<close> and \<^verbatim>\<open>time.c\<close>. A time value is the absolute
  deadline in microseconds.
\<close>

type_synonym timeval = int

definition tv_add :: "timeval \<Rightarrow> suseconds_t \<Rightarrow> timeval" where
  "tv_add tv usecs = tv + usecs"

definition tv_gt :: "timeval \<Rightarrow> timeval \<Rightarrow> bool" where
  "tv_gt tv1 tv2 = (tv1 > tv2)"

definition tv_gteq :: "timeval \<Rightarrow> timeval \<Rightarrow> bool" where
  "tv_gteq tv1 tv2 = (tv1 \<ge> tv2)"

subsection \<open>Structures\<close>

text \<open>
  Modelled from the spec: \<^verbatim>\<open>awaiter_t\<close> and its \<^verbatim>\<open>to_event\<close> member are declared in
  \<^verbatim>\<open>async_priv.h\<close>. The list link of \<^verbatim>\<open>to_event\<close> is represented by the position of
  the awaiter in \<open>timeout_list\<close> below.
\<close>

record to_event_t =
  inlist :: bool
  occurred :: bool
  expires :: timeval

record awaiter_t =
  fid :: fid_t
  active :: bool
  to_event :: to_event_t

text \<open>
  \<^verbatim>\<open>amsg_t\<close> and \<^verbatim>\<open>connection_t\<close> both start with the member \<^verbatim>\<open>awaiter_t wdata\<close>.
  The member \<^verbatim>\<open>done\<close> of \<^verbatim>\<open>amsg_t\<close> is \<open>done_flag\<close> here, the source's name being a
  reserved word.
\<close>

record waiter =
  wdata :: awaiter_t

record amsg_t = waiter +
  done_flag :: bool
  dataptr :: ptr
  retval :: ipcarg_t

record msg_t =
  callid :: ipc_callid_t
  call :: ipc_call_t

text \<open>
  The message queue of a connection is the list of its \<^verbatim>\<open>msg_t\<close> nodes, head first. The
  hash table link is the position of the connection in \<open>conn_hash_table\<close> below.
\<close>

record connection_t = waiter +
  conn_in_phone_hash :: ipcarg_t
  msg_queue :: "msg_t list"
  conn_callid :: ipc_callid_t
  conn_call :: ipc_call_t
  close_callid :: ipc_callid_t
  cfibril :: ptr

subsection \<open>The state of the framework and its effects on the outside\<close>

text \<open>
  Modelled from the spec: the futex, the kernel IPC facade, the fibril scheduler and the
  allocator are not among the sources. The calls that \<^verbatim>\<open>async.c\<close> makes to them
  (\<^verbatim>\<open>futex_down\<close>, \<^verbatim>\<open>futex_up\<close>, \<^verbatim>\<open>ipc_answer_0\<close>, \<^verbatim>\<open>fibril_add_ready\<close>,
  \<^verbatim>\<open>fibril_switch\<close>, \<^verbatim>\<open>free\<close>, \<^verbatim>\<open>ipc_call_async_4\<close> and \<^verbatim>\<open>ipc_call_async_5\<close>,
  \<^verbatim>\<open>ipc_data_write_finalize\<close>) are recorded in the order in which they are made; what
  they return to \<^verbatim>\<open>async.c\<close> is an argument of the function that calls them.
  \<^verbatim>\<open>free\<close> of a block is \<open>FREE\<close> with its address. The nodes of a message queue are
  values in a list and have no address here, so \<^verbatim>\<open>free\<close> of a node is \<open>FREE_MSG\<close> with
  the node that is released.
\<close>

datatype effect =
    FUTEX_DOWN
  | FUTEX_UP
  | IPC_ANSWER_0 ipc_callid_t errno
  | FIBRIL_ADD_READY fid_t
  | FIBRIL_SWITCH_TO_MANAGER
  | FREE ptr
  | FREE_MSG msg_t
  | IPC_CALL_ASYNC int ipcarg_t "ipcarg_t list" ptr
  | IPC_DATA_WRITE_FINALIZE ipc_callid_t ptr nat

text \<open>A pointer to the \<^verbatim>\<open>wdata\<close> member of a connection or of an outbound message.\<close>

datatype awaiter_ref = Conn_wdata ptr | Amsg_wdata ptr

text \<open>
  Memory is total: an address that \<^verbatim>\<open>malloc\<close> has just returned holds whatever the
  state holds there, as an uninitialised block does. \<^verbatim>\<open>free\<close> releases a block to the
  allocator, which the trace records; a released block must not be read again, and the
  function that does read one (the end of \<^verbatim>\<open>connection_fibril\<close> below) looks the release
  up in the trace and stops with a fault at the read. The
  connection table is the array of its chains, each the list of the connections linked in
  it; \<open>client_connection\<close> is the global function pointer of that name.
\<close>

record async_state =
  conns :: "ptr \<Rightarrow> connection_t"
  amsgs :: "ptr \<Rightarrow> amsg_t"
  calls :: "ptr \<Rightarrow> ipc_call_t"
  conn_hash_table :: "nat \<Rightarrow> ptr list"
  timeout_list :: "awaiter_ref list"
  client_connection :: ptr
  trace :: "effect list"

definition emit :: "effect \<Rightarrow> async_state \<Rightarrow> async_state" where
  "emit e s = s\<lparr>trace := trace s @ [e]\<rparr>"

definition futex_down :: "async_state \<Rightarrow> async_state" where
  "futex_down s = emit FUTEX_DOWN s"

definition futex_up :: "async_state \<Rightarrow> async_state" where
  "futex_up s = emit FUTEX_UP s"

definition ipc_answer_0 :: "ipc_callid_t \<Rightarrow> errno \<Rightarrow> async_state \<Rightarrow> async_state" where
  "ipc_answer_0 cid rv s = emit (IPC_ANSWER_0 cid rv) s"

definition fibril_add_ready :: "fid_t \<Rightarrow> async_state \<Rightarrow> async_state" where
  "fibril_add_ready f s = emit (FIBRIL_ADD_READY f) s"

definition free :: "ptr \<Rightarrow> async_state \<Rightarrow> async_state" where
  "free p s = emit (FREE p) s"

definition free_msg :: "msg_t \<Rightarrow> async_state \<Rightarrow> async_state" where
  "free_msg m s = emit (FREE_MSG m) s"

definition upd_conn :: "ptr \<Rightarrow> (connection_t \<Rightarrow> connection_t) \<Rightarrow> async_state \<Rightarrow> async_state" where
  "upd_conn p f s = s\<lparr>conns := (conns s)(p := f (conns s p))\<rparr>"

definition upd_amsg :: "ptr \<Rightarrow> (amsg_t \<Rightarrow> amsg_t) \<Rightarrow> async_state \<Rightarrow> async_state" where
  "upd_amsg p f s = s\<lparr>amsgs := (amsgs s)(p := f (amsgs s p))\<rparr>"

fun get_wdata :: "async_state \<Rightarrow> awaiter_ref \<Rightarrow> awaiter_t" where
  "get_wdata s (Conn_wdata p) = wdata (conns s p)"
| "get_wdata s (Amsg_wdata p) = wdata (amsgs s p)"

fun upd_wdata :: "awaiter_ref \<Rightarrow> (awaiter_t \<Rightarrow> awaiter_t) \<Rightarrow> async_state \<Rightarrow> async_state" where
  "upd_wdata (Conn_wdata p) f s = upd_conn p (\<lambda>c. c\<lparr>wdata := f (wdata c)\<rparr>) s"
| "upd_wdata (Amsg_wdata p) f s = upd_amsg p (\<lambda>m. m\<lparr>wdata := f (wdata m)\<rparr>) s"

text \<open>Assignments to the members of an awaiter.\<close>

definition set_active :: "bool \<Rightarrow> awaiter_t \<Rightarrow> awaiter_t" where
  "set_active b w = w\<lparr>active := b\<rparr>"

definition set_fid :: "fid_t \<Rightarrow> awaiter_t \<Rightarrow> awaiter_t" where
  "set_fid f w = w\<lparr>fid := f\<rparr>"

definition set_inlist :: "bool \<Rightarrow> awaiter_t \<Rightarrow> awaiter_t" where
  "set_inlist b w = w\<lparr>to_event := (to_event w)\<lparr>inlist := b\<rparr>\<rparr>"

definition set_occurred :: "bool \<Rightarrow> awaiter_t \<Rightarrow> awaiter_t" where
  "set_occurred b w = w\<lparr>to_event := (to_event w)\<lparr>occurred := b\<rparr>\<rparr>"

definition set_expires :: "timeval \<Rightarrow> awaiter_t \<Rightarrow> awaiter_t" where
  "set_expires tv w = w\<lparr>to_event := (to_event w)\<lparr>expires := tv\<rparr>\<rparr>"

definition expires_of :: "async_state \<Rightarrow> awaiter_ref \<Rightarrow> timeval" where
  "expires_of s r = expires (to_event (get_wdata s r))"

text \<open>The result of the part of a function that runs up to a fibril switch.\<close>

datatype 'a outcome = Returned 'a | Suspended

subsection \<open>The timeout list\<close>

text \<open>
  Modelled from the spec: \<^verbatim>\<open>adt/list.h\<close> is not among the sources. A list is the
  sequence of its links from the head; \<^verbatim>\<open>list_append(link, pos)\<close> puts the link right
  before \<open>pos\<close> (at the tail when \<open>pos\<close> is the head of the list), \<^verbatim>\<open>list_remove\<close>
  unlinks. The framework unlinks an awaiter only under its \<^verbatim>\<open>inlist\<close> flag; unlinking an
  awaiter that is not linked leaves the list as it is here, where the source would follow
  the stale pointers of the link.

  The walk of \<^verbatim>\<open>async_insert_timeout\<close>: \<open>tmp\<close> advances while the current awaiter
  expires strictly before the new one, and the new link goes in front of \<open>tmp\<close>.
\<close>

fun timeout_walk :: "(awaiter_ref \<Rightarrow> timeval) \<Rightarrow> timeval \<Rightarrow> awaiter_ref \<Rightarrow> awaiter_ref list \<Rightarrow> awaiter_ref list" where
  "timeout_walk ex e wd [] = [wd]"
| "timeout_walk ex e wd (cur # rest) =
     (if tv_gteq (ex cur) e then wd # cur # rest else cur # timeout_walk ex e wd rest)"

definition async_insert_timeout :: "awaiter_ref \<Rightarrow> async_state \<Rightarrow> async_state" where
  "async_insert_timeout wd s =
     (let s1 = upd_wdata wd (set_occurred False) s;
          s2 = upd_wdata wd (set_inlist True) s1
      in s2\<lparr>timeout_list := timeout_walk (expires_of s2) (expires_of s2 wd) wd (timeout_list s2)\<rparr>)"

definition list_remove_timeout :: "awaiter_ref \<Rightarrow> async_state \<Rightarrow> async_state" where
  "list_remove_timeout wd s = s\<lparr>timeout_list := remove1 wd (timeout_list s)\<rparr>"

text \<open>
  \<^verbatim>\<open>handle_expired_timeouts\<close>: the loop always looks at the first link of the list,
  because every awaiter it passes is unlinked.
\<close>

function expired_loop :: "timeval \<Rightarrow> async_state \<Rightarrow> async_state" where
  "expired_loop tv s =
     (case timeout_list s of
        [] \<Rightarrow> s
      | cur # rest \<Rightarrow>
          if tv_gt (expires_of s cur) tv then s
          else
            let s1 = s\<lparr>timeout_list := rest\<rparr>;
                s2 = upd_wdata cur (set_inlist False) s1;
                s3 = upd_wdata cur (set_occurred True) s2;
                s4 = (if \<not> active (get_wdata s3 cur)
                      then let s5 = upd_wdata cur (set_active True) s3
                           in fibril_add_ready (fid (get_wdata s5 cur)) s5
                      else s3)
            in expired_loop tv s4)"
  by pat_completeness auto

termination
proof (relation "measure (\<lambda>(tv, s). length (timeout_list s))")
  show "wf (measure (\<lambda>(tv, s). length (timeout_list s)))" by simp
next
  fix tv s cur rest s1 s2 s3 s4
  assume l: "timeout_list s = cur # rest"
    and "s1 = s\<lparr>timeout_list := rest\<rparr>"
    and "s2 = upd_wdata cur (set_inlist False) s1"
    and "s3 = upd_wdata cur (set_occurred True) s2"
    and "s4 = (if \<not> active (get_wdata s3 cur)
               then let s5 = upd_wdata cur (set_active True) s3
                    in fibril_add_ready (fid (get_wdata s5 cur)) s5
               else s3)"
  then have "timeout_list s4 = rest"
    by (cases cur) (simp_all add: Let_def upd_conn_def upd_amsg_def fibril_add_ready_def emit_def)
  with l show "((tv, s4), (tv, s)) \<in> measure (\<lambda>(tv, s). length (timeout_list s))"
    by simp
qed

declare expired_loop.simps [simp del]

definition handle_expired_timeouts :: "timeval \<Rightarrow> async_state \<Rightarrow> async_state" where
  "handle_expired_timeouts tv s = futex_up (expired_loop tv (futex_down s))"

subsection \<open>The connection hash table\<close>

text \<open>
  Modelled from the spec: \<^verbatim>\<open>adt/hash_table.c\<close> is not among the sources. The table
  is a hash map with chaining: \<^verbatim>\<open>conn_hash\<close> selects the chain, an insertion appends to
  the chain, a lookup returns the first item of the chain that \<^verbatim>\<open>conn_compare\<close>
  accepts, and a removal unlinks that item and passes it to the removal callback
  \<^verbatim>\<open>conn_remove\<close>.
\<close>

definition CONN_HASH_TABLE_CHAINS :: nat where
  "CONN_HASH_TABLE_CHAINS = 32"

definition conn_hash :: "nat \<Rightarrow> nat" where
  "conn_hash key = drop_bit 4 key mod CONN_HASH_TABLE_CHAINS"

definition conn_compare :: "async_state \<Rightarrow> nat \<Rightarrow> ptr \<Rightarrow> bool" where
  "conn_compare s key item = (key = conn_in_phone_hash (conns s item))"

definition hash_table_find :: "async_state \<Rightarrow> nat \<Rightarrow> ptr option" where
  "hash_table_find s key = find (conn_compare s key) (conn_hash_table s (conn_hash key))"

definition hash_table_insert :: "nat \<Rightarrow> ptr \<Rightarrow> async_state \<Rightarrow> async_state" where
  "hash_table_insert key item s =
     s\<lparr>conn_hash_table := (conn_hash_table s)(conn_hash key := conn_hash_table s (conn_hash key) @ [item])\<rparr>"

definition conn_remove :: "ptr \<Rightarrow> async_state \<Rightarrow> async_state" where
  "conn_remove item s = free item s"

definition hash_table_remove :: "nat \<Rightarrow> async_state \<Rightarrow> async_state" where
  "hash_table_remove key s =
     (case hash_table_find s key of
        None \<Rightarrow> s
      | Some cur \<Rightarrow>
          conn_remove cur
            (s\<lparr>conn_hash_table :=
                 (conn_hash_table s)(conn_hash key := remove1 cur (conn_hash_table s (conn_hash key)))\<rparr>))"

subsection \<open>Routing incoming calls\<close>

text \<open>
  \<open>msg_ok\<close> tells whether the \<^verbatim>\<open>malloc\<close> of the inbox node succeeds.
\<close>

definition route_call :: "ipc_h \<Rightarrow> ipc_callid_t \<Rightarrow> ipc_call_t \<Rightarrow> bool \<Rightarrow> async_state \<Rightarrow> bool \<times> async_state" where
  "route_call K cid icall msg_ok s =
     (let s1 = futex_down s;
          key = in_phone_hash icall
      in case hash_table_find s1 key of
           None \<Rightarrow> (False, futex_up s1)
         | Some conn \<Rightarrow>
             if \<not> msg_ok then (False, futex_up s1)
             else
               let s2 = upd_conn conn (\<lambda>c. c\<lparr>msg_queue := msg_queue c @ [\<lparr>callid = cid, call = icall\<rparr>]\<rparr>) s1;
                   s3 = (if imethod icall = IPC_M_PHONE_HUNGUP K
                         then upd_conn conn (\<lambda>c. c\<lparr>close_callid := cid\<rparr>) s2 else s2);
                   s4 = (if \<not> active (wdata (conns s3 conn))
                         then
                           let s5 = (if inlist (to_event (wdata (conns s3 conn)))
                                     then list_remove_timeout (Conn_wdata conn)
                                            (upd_wdata (Conn_wdata conn) (set_inlist False) s3)
                                     else s3);
                               s6 = upd_wdata (Conn_wdata conn) (set_active True) s5
                           in fibril_add_ready (fid (wdata (conns s6 conn))) s6
                         else s3)
               in (True, futex_up s4))"

text \<open>
  \<open>new_fid\<close> is what \<^verbatim>\<open>fibril_create\<close> returns.
\<close>

definition process_notification :: "ipc_callid_t \<Rightarrow> ipc_call_t \<Rightarrow> bool \<Rightarrow> fid_t \<Rightarrow> async_state \<Rightarrow> bool \<times> async_state" where
  "process_notification cid icall msg_ok new_fid s =
     (let s1 = futex_down s
      in if \<not> msg_ok then (False, futex_up s1)
         else (True, futex_up (fibril_add_ready new_fid s1)))"

text \<open>
  \<open>conn\<close> is what \<^verbatim>\<open>malloc\<close> returns for the connection, \<open>new_fid\<close> what
  \<^verbatim>\<open>fibril_create\<close> returns; \<open>icall\<close> is \<open>None\<close> for a \<^verbatim>\<open>NULL\<close> call pointer.
\<close>

definition async_new_connection ::
  "ipcarg_t \<Rightarrow> ipc_callid_t \<Rightarrow> ipc_call_t option \<Rightarrow> ptr \<Rightarrow> ptr \<Rightarrow> fid_t \<Rightarrow> async_state \<Rightarrow> fid_t \<times> async_state" where
  "async_new_connection hash cid icall cfib conn new_fid s =
     (if conn = 0 then (0, if cid \<noteq> 0 then ipc_answer_0 cid ENOMEM s else s)
      else
        let s1 = upd_conn conn (\<lambda>c. c\<lparr>conn_in_phone_hash := hash, msg_queue := [],
                                        conn_callid := cid, close_callid := 0\<rparr>) s;
            s2 = (case icall of None \<Rightarrow> s1 | Some ic \<Rightarrow> upd_conn conn (\<lambda>c. c\<lparr>conn_call := ic\<rparr>) s1);
            s3 = upd_wdata (Conn_wdata conn) (set_active True) s2;
            s4 = upd_conn conn (\<lambda>c. c\<lparr>cfibril := cfib\<rparr>) s3;
            s5 = upd_wdata (Conn_wdata conn) (set_fid new_fid) s4
        in if fid (wdata (conns s5 conn)) = 0
           then (0, let s6 = free conn s5 in if cid \<noteq> 0 then ipc_answer_0 cid ENOMEM s6 else s6)
           else
             let key = conn_in_phone_hash (conns s5 conn);
                 s6 = futex_up (hash_table_insert key conn (futex_down s5));
                 s7 = fibril_add_ready (fid (wdata (conns s6 conn))) s6
             in (fid (wdata (conns s7 conn)), s7))"

text \<open>What the allocator and the scheduler hand to \<^verbatim>\<open>handle_call\<close>.\<close>

record call_env =
  msg_ok :: bool
  conn_ret :: ptr
  fid_ret :: fid_t

definition handle_call :: "ipc_h \<Rightarrow> ipc_callid_t \<Rightarrow> ipc_call_t \<Rightarrow> call_env \<Rightarrow> async_state \<Rightarrow> async_state" where
  "handle_call K cid icall env s =
     (if cid AND IPC_CALLID_NOTIFICATION K \<noteq> 0
      then snd (process_notification cid icall (msg_ok env) (fid_ret env) s)
      else if imethod icall = IPC_M_CONNECT_ME K \<or> imethod icall = IPC_M_CONNECT_ME_TO K
      then snd (async_new_connection (arg5 icall) cid (Some icall) (client_connection s)
                  (conn_ret env) (fid_ret env) s)
      else case route_call K cid icall (msg_ok env) s of
             (True, s1) \<Rightarrow> s1
           | (False, s1) \<Rightarrow> ipc_answer_0 cid EHANGUP s1)"

subsection \<open>The connection fibril\<close>

text \<open>
  \<^verbatim>\<open>async_get_call_timeout\<close> for the connection \<open>conn\<close> (the fibril-local
  \<^verbatim>\<open>FIBRIL_connection\<close>). It returns the call identifier and what it stores to
  \<^verbatim>\<open>*call\<close>: \<open>None\<close> when it leaves the storage as it is. \<open>now\<close> is the time that
  \<^verbatim>\<open>gettimeofday\<close> reads.

  \<open>get_call_loop\<close> is the \<^verbatim>\<open>while\<close> loop from its test up to the next return or
  fibril switch, with the removal of the first message behind it.
\<close>

definition get_call_loop ::
  "ipc_h \<Rightarrow> ptr \<Rightarrow> suseconds_t \<Rightarrow> async_state \<Rightarrow> (ipc_callid_t \<times> ipc_call_t option) outcome \<times> async_state" where
  "get_call_loop K conn usecs s =
     (case msg_queue (conns s conn) of
        [] \<Rightarrow>
          if close_callid (conns s conn) \<noteq> 0
          then (Returned (close_callid (conns s conn),
                          Some (zero_call\<lparr>imethod := IPC_M_PHONE_HUNGUP K\<rparr>)), futex_up s)
          else
            let s1 = (if usecs \<noteq> 0 then async_insert_timeout (Conn_wdata conn) s else s);
                s2 = upd_wdata (Conn_wdata conn) (set_active False) s1
            in (Suspended, emit FIBRIL_SWITCH_TO_MANAGER s2)
      | msg # rest \<Rightarrow>
          let s1 = upd_conn conn (\<lambda>c. c\<lparr>msg_queue := rest\<rparr>) s
          in (Returned (callid msg, Some (call msg)), futex_up (free_msg msg s1)))"

definition async_get_call_timeout ::
  "ipc_h \<Rightarrow> ptr \<Rightarrow> suseconds_t \<Rightarrow> timeval \<Rightarrow> async_state \<Rightarrow> (ipc_callid_t \<times> ipc_call_t option) outcome \<times> async_state" where
  "async_get_call_timeout K conn usecs now s =
     (let s1 = futex_down s;
          s2 = (if usecs \<noteq> 0
                then upd_wdata (Conn_wdata conn) (set_expires (tv_add now usecs)) s1
                else upd_wdata (Conn_wdata conn) (set_inlist False) s1)
      in get_call_loop K conn usecs s2)"

definition async_get_call_timeout_resume ::
  "ipc_h \<Rightarrow> ptr \<Rightarrow> suseconds_t \<Rightarrow> async_state \<Rightarrow> (ipc_callid_t \<times> ipc_call_t option) outcome \<times> async_state" where
  "async_get_call_timeout_resume K conn usecs s =
     (let s1 = futex_down s
      in if usecs \<noteq> 0 \<and> occurred (to_event (wdata (conns s1 conn))) \<and> msg_queue (conns s1 conn) = []
         then (Returned (0, None), futex_up s1)
         else get_call_loop K conn usecs s1)"

text \<open>
  The \<^verbatim>\<open>while\<close> loop of \<^verbatim>\<open>connection_fibril\<close>: it unlinks the first message of the
  queue, answers it and releases its node, until the queue is empty.
\<close>

function hangup_loop :: "ptr \<Rightarrow> async_state \<Rightarrow> async_state" where
  "hangup_loop conn s =
     (case msg_queue (conns s conn) of
        [] \<Rightarrow> s
      | msg # rest \<Rightarrow>
          hangup_loop conn
            (free_msg msg
               (ipc_answer_0 (callid msg) EHANGUP (upd_conn conn (\<lambda>c. c\<lparr>msg_queue := rest\<rparr>) s))))"
  by pat_completeness auto
termination
  by (relation "measure (\<lambda>(conn, s). length (msg_queue (conns s conn)))")
     (simp_all add: free_msg_def ipc_answer_0_def emit_def upd_conn_def)

declare hangup_loop.simps [simp del]

text \<open>
  A read of memory that \<^verbatim>\<open>free\<close> has released has no defined result. \<open>released_since\<close>
  tells whether the trace records the release of the block at \<open>p\<close> between the states
  \<open>s0\<close> and \<open>s\<close>, the second reached from the first.
\<close>

datatype fault = USE_AFTER_FREE ptr

definition released_since :: "async_state \<Rightarrow> async_state \<Rightarrow> ptr \<Rightarrow> bool" where
  "released_since s0 s p = (FREE p \<in> set (drop (length (trace s0)) (trace s)))"

text \<open>
  \<^verbatim>\<open>connection_fibril\<close> from the return of the connection function \<^verbatim>\<open>cfibril\<close> on, for
  the connection \<open>conn\<close> (\<^verbatim>\<open>FIBRIL_connection\<close>), which is in use when the function is
  entered. \<^verbatim>\<open>hash_table_remove\<close> hands the item that it unlinks to \<^verbatim>\<open>conn_remove\<close>,
  which releases it; the loop and the test of \<^verbatim>\<open>close_callid\<close> behind it then read
  members of \<^verbatim>\<open>FIBRIL_connection\<close>. When the block released is that of \<open>conn\<close>, the
  first of these reads, the test of the loop, is a read of released memory: the result is
  the fault together with the state in which the read is made. Otherwise the result is the
  state in which the function returns.
\<close>

definition connection_fibril_exit :: "ptr \<Rightarrow> async_state \<Rightarrow> (fault \<times> async_state) + async_state" where
  "connection_fibril_exit conn s =
     (let s1 = futex_down s;
          key = conn_in_phone_hash (conns s1 conn);
          s2 = futex_up (hash_table_remove key s1)
      in if released_since s s2 conn then Inl (USE_AFTER_FREE conn, s2)
         else
           let s3 = hangup_loop conn s2
           in Inr (if close_callid (conns s3 conn) \<noteq> 0
                   then ipc_answer_0 (close_callid (conns s3 conn)) EOK s3
                   else s3))"

subsection \<open>Outbound messages\<close>

text \<open>
  \<^verbatim>\<open>reply_received\<close>; \<open>data\<close> is \<open>None\<close> for a \<^verbatim>\<open>NULL\<close> pointer. The parameter
  \<^verbatim>\<open>retval\<close> is an \<^verbatim>\<open>int\<close> (\<open>rv\<close>) and the member \<^verbatim>\<open>msg->retval\<close> an \<^verbatim>\<open>ipcarg_t\<close>: the
  assignment converts the status.
\<close>

definition reply_received :: "ipc_h \<Rightarrow> ptr \<Rightarrow> int \<Rightarrow> ipc_call_t option \<Rightarrow> async_state \<Rightarrow> async_state" where
  "reply_received K msg rv data s =
     (let s1 = futex_down s;
          s2 = upd_amsg msg (\<lambda>m. m\<lparr>retval := ipcarg_of_int K rv\<rparr>) s1;
          s3 = (case data of
                  None \<Rightarrow> s2
                | Some d \<Rightarrow>
                    if dataptr (amsgs s2 msg) \<noteq> 0
                    then s2\<lparr>calls := (calls s2)(dataptr (amsgs s2 msg) := d)\<rparr> else s2);
          s4 = (if inlist (to_event (wdata (amsgs s3 msg)))
                then list_remove_timeout (Amsg_wdata msg) s3 else s3);
          s5 = upd_amsg msg (\<lambda>m. m\<lparr>done_flag := True\<rparr>) s4;
          s6 = (if \<not> active (wdata (amsgs s5 msg))
                then let s7 = upd_wdata (Amsg_wdata msg) (set_active True) s5
                     in fibril_add_ready (fid (wdata (amsgs s7 msg))) s7
                else s5)
      in futex_up s6)"

text \<open>
  \<open>msg\<close> is what \<^verbatim>\<open>malloc\<close> returns. The asynchronous call is handed to the kernel
  facade with the message as its user data and \<^verbatim>\<open>reply_received\<close> as its callback.
\<close>

definition async_send_fast ::
  "int \<Rightarrow> ipcarg_t \<Rightarrow> ipcarg_t \<Rightarrow> ipcarg_t \<Rightarrow> ipcarg_t \<Rightarrow> ipcarg_t \<Rightarrow> ptr \<Rightarrow> ptr \<Rightarrow> async_state \<Rightarrow> ptr \<times> async_state" where
  "async_send_fast phoneid meth a1 a2 a3 a4 dptr msg s =
     (if msg = 0 then (0, s)
      else
        let s1 = upd_amsg msg (\<lambda>m. m\<lparr>done_flag := False\<rparr>) s;
            s2 = upd_amsg msg (\<lambda>m. m\<lparr>dataptr := dptr\<rparr>) s1;
            s3 = upd_wdata (Amsg_wdata msg) (set_inlist False) s2;
            s4 = upd_wdata (Amsg_wdata msg) (set_active True) s3
        in (msg, emit (IPC_CALL_ASYNC phoneid meth [a1, a2, a3, a4] msg) s4))"

definition async_send_slow ::
  "int \<Rightarrow> ipcarg_t \<Rightarrow> ipcarg_t \<Rightarrow> ipcarg_t \<Rightarrow> ipcarg_t \<Rightarrow> ipcarg_t \<Rightarrow> ipcarg_t \<Rightarrow> ptr \<Rightarrow> ptr \<Rightarrow> async_state \<Rightarrow> ptr \<times> async_state" where
  "async_send_slow phoneid meth a1 a2 a3 a4 a5 dptr msg s =
     (if msg = 0 then (0, s)
      else
        let s1 = upd_amsg msg (\<lambda>m. m\<lparr>done_flag := False\<rparr>) s;
            s2 = upd_amsg msg (\<lambda>m. m\<lparr>dataptr := dptr\<rparr>) s1;
            s3 = upd_wdata (Amsg_wdata msg) (set_inlist False) s2;
            s4 = upd_wdata (Amsg_wdata msg) (set_active True) s3
        in (msg, emit (IPC_CALL_ASYNC phoneid meth [a1, a2, a3, a4, a5] msg) s4))"

text \<open>
  The code behind the label \<^verbatim>\<open>done\<close> of \<^verbatim>\<open>async_wait_for\<close> and
  \<^verbatim>\<open>async_wait_timeout\<close>: \<open>want\<close> tells whether the pointer \<^verbatim>\<open>retval\<close> is not
  \<^verbatim>\<open>NULL\<close>, and the result is what is stored through it.
\<close>

definition wait_done :: "ptr \<Rightarrow> bool \<Rightarrow> async_state \<Rightarrow> ipcarg_t option \<times> async_state" where
  "wait_done msg want s = ((if want then Some (retval (amsgs s msg)) else None), free msg s)"

text \<open>\<open>self\<close> is what \<^verbatim>\<open>fibril_get_id\<close> returns.\<close>

definition async_wait_for :: "ptr \<Rightarrow> bool \<Rightarrow> fid_t \<Rightarrow> async_state \<Rightarrow> ipcarg_t option outcome \<times> async_state" where
  "async_wait_for msg want self s =
     (let s1 = futex_down s
      in if done_flag (amsgs s1 msg)
         then (case wait_done msg want (futex_up s1) of (r, s2) \<Rightarrow> (Returned r, s2))
         else
           let s2 = upd_wdata (Amsg_wdata msg) (set_fid self) s1;
               s3 = upd_wdata (Amsg_wdata msg) (set_active False) s2;
               s4 = upd_wdata (Amsg_wdata msg) (set_inlist False) s3
           in (Suspended, emit FIBRIL_SWITCH_TO_MANAGER s4))"

definition async_wait_for_resume :: "ptr \<Rightarrow> bool \<Rightarrow> async_state \<Rightarrow> ipcarg_t option \<times> async_state" where
  "async_wait_for_resume msg want s = wait_done msg want s"

definition async_wait_timeout ::
  "ptr \<Rightarrow> bool \<Rightarrow> suseconds_t \<Rightarrow> timeval \<Rightarrow> fid_t \<Rightarrow> async_state \<Rightarrow> (errno \<times> ipcarg_t option) outcome \<times> async_state" where
  "async_wait_timeout msg want timeout now self s =
     (if timeout < 0 then (Returned (ETIMEOUT, None), s)
      else
        let s1 = futex_down s
        in if done_flag (amsgs s1 msg)
           then (case wait_done msg want (futex_up s1) of (r, s2) \<Rightarrow> (Returned (EOK, r), s2))
           else
             let s2 = upd_wdata (Amsg_wdata msg) (set_expires (tv_add now timeout)) s1;
                 s3 = upd_wdata (Amsg_wdata msg) (set_fid self) s2;
                 s4 = upd_wdata (Amsg_wdata msg) (set_active False) s3;
                 s5 = async_insert_timeout (Amsg_wdata msg) s4
             in (Suspended, emit FIBRIL_SWITCH_TO_MANAGER s5))"

definition async_wait_timeout_resume :: "ptr \<Rightarrow> bool \<Rightarrow> async_state \<Rightarrow> (errno \<times> ipcarg_t option) \<times> async_state" where
  "async_wait_timeout_resume msg want s =
     (if \<not> done_flag (amsgs s msg) then ((ETIMEOUT, None), s)
      else (case wait_done msg want s of (r, s1) \<Rightarrow> ((EOK, r), s1)))"

definition async_usleep :: "suseconds_t \<Rightarrow> ptr \<Rightarrow> timeval \<Rightarrow> fid_t \<Rightarrow> async_state \<Rightarrow> unit outcome \<times> async_state" where
  "async_usleep timeout msg now self s =
     (if msg = 0 then (Returned (), s)
      else
        let s1 = upd_wdata (Amsg_wdata msg) (set_fid self) s;
            s2 = upd_wdata (Amsg_wdata msg) (set_active False) s1;
            s3 = upd_wdata (Amsg_wdata msg) (set_expires (tv_add now timeout)) s2;
            s4 = futex_down s3;
            s5 = async_insert_timeout (Amsg_wdata msg) s4
        in (Suspended, emit FIBRIL_SWITCH_TO_MANAGER s5))"

definition async_usleep_resume :: "ptr \<Rightarrow> async_state \<Rightarrow> async_state" where
  "async_usleep_resume msg s = free msg s"

subsection \<open>Accepting written data\<close>

text \<open>
  \<^verbatim>\<open>async_data_write_receive\<close> from the return of \<^verbatim>\<open>async_get_call\<close> on: \<open>got\<close> is the
  call identifier and the call record that \<^verbatim>\<open>async_get_call\<close> delivered. The result is
  the return value, what is stored to \<^verbatim>\<open>*callid\<close> and what is stored to \<^verbatim>\<open>*size\<close>
  (\<open>None\<close> when nothing is stored).
\<close>

definition async_data_write_receive :: "ipc_h \<Rightarrow> ipc_callid_t \<times> ipc_call_t \<Rightarrow> int \<times> ipc_callid_t \<times> nat option" where
  "async_data_write_receive K got =
     (case got of (cid, data) \<Rightarrow>
        if imethod data \<noteq> IPC_M_DATA_WRITE K then (0, cid, None)
        else (1, cid, Some (arg2 data)))"

text \<open>
  What the allocator and the kernel hand to \<^verbatim>\<open>async_data_write_accept\<close>:
  the address \<^verbatim>\<open>malloc\<close> returns (\<open>0\<close> for \<^verbatim>\<open>NULL\<close>), the bytes the fresh block holds,
  the return value of \<^verbatim>\<open>ipc_data_write_finalize\<close> and the bytes it copies to the
  destination.
\<close>

record accept_env =
  malloc_ret :: ptr
  fresh :: "nat \<Rightarrow> nat"
  finalize_rc :: errno
  payload :: "nat \<Rightarrow> nat"

text \<open>
  The result: the return value, what is stored to \<^verbatim>\<open>*data\<close> (the address of the buffer
  and its bytes), what is stored to \<^verbatim>\<open>*received\<close>, and whether a byte was written
  outside the allocated block.
\<close>

record accept_result =
  accept_rc :: errno
  data_out :: "(ptr \<times> nat list) option"
  received_out :: "nat option"
  overrun :: bool

definition accept_fail :: "errno \<Rightarrow> accept_result" where
  "accept_fail e = \<lparr>accept_rc = e, data_out = None, received_out = None, overrun = False\<rparr>"

text \<open>
  \<open>bits\<close> is the width of \<^verbatim>\<open>size_t\<close>: the argument of \<^verbatim>\<open>malloc(size + 1)\<close> wraps
  around at \<open>2 ^ bits\<close>. The local \<^verbatim>\<open>size\<close> is \<open>sz\<close>. \<open>want_received\<close> tells whether \<^verbatim>\<open>received\<close> is not \<^verbatim>\<open>NULL\<close>.
\<close>

definition async_data_write_accept ::
  "ipc_h \<Rightarrow> nat \<Rightarrow> ipc_callid_t \<times> ipc_call_t \<Rightarrow> bool \<Rightarrow> nat \<Rightarrow> nat \<Rightarrow> nat \<Rightarrow> bool \<Rightarrow> accept_env
     \<Rightarrow> async_state \<Rightarrow> accept_result \<times> async_state" where
  "async_data_write_accept K bits got nullterm min_size max_size granularity want_received env s =
     (case async_data_write_receive K got of
        (ok, cid, None) \<Rightarrow> (accept_fail EINVAL, ipc_answer_0 cid EINVAL s)
      | (ok, cid, Some sz) \<Rightarrow>
          if ok = 0 then (accept_fail EINVAL, ipc_answer_0 cid EINVAL s)
          else if sz < min_size then (accept_fail EINVAL, ipc_answer_0 cid EINVAL s)
          else if max_size > 0 \<and> sz > max_size then (accept_fail EINVAL, ipc_answer_0 cid EINVAL s)
          else if granularity > 0 \<and> sz mod granularity \<noteq> 0
          then (accept_fail EINVAL, ipc_answer_0 cid EINVAL s)
          else
            let n = (if nullterm then (sz + 1) mod 2 ^ bits else sz);
                block = map (fresh env) [0..<n]
            in if malloc_ret env = 0 then (accept_fail ENOMEM, ipc_answer_0 cid ENOMEM s)
               else
                 let s1 = emit (IPC_DATA_WRITE_FINALIZE cid (malloc_ret env) sz) s;
                     rc = finalize_rc env
                 in if rc \<noteq> EOK then (accept_fail rc, free (malloc_ret env) s1)
                    else
                      let copied = map (payload env) [0..<sz] @ drop sz block;
                          filled = (if nullterm then copied[sz := 0] else copied)
                      in (\<lparr>accept_rc = EOK,
                           data_out = Some (malloc_ret env, take n filled),
                           received_out = (if want_received then Some sz else None),
                           overrun = (n < sz \<or> (nullterm \<and> n \<le> sz))\<rparr>, s1))"

text \<open>
  The three tests that \<^verbatim>\<open>async_data_write_accept\<close> applies to the negotiated size.
\<close>

definition size_rejected :: "nat \<Rightarrow> nat \<Rightarrow> nat \<Rightarrow> nat \<Rightarrow> bool" where
  "size_rejected sz min_size max_size granularity =
     (sz < min_size \<or> (max_size > 0 \<and> sz > max_size) \<or> (granularity > 0 \<and> sz mod granularity \<noteq> 0))"

subsection \<open>Successive calls\<close>

text \<open>
  The connection fibril calling \<^verbatim>\<open>async_get_call_timeout\<close> again and again, each call
  with its own timeout and clock reading, on the state the call before left. The
  sequence ends when a call suspends the fibril.
\<close>

fun get_call_polls ::
  "ipc_h \<Rightarrow> ptr \<Rightarrow> (suseconds_t \<times> timeval) list \<Rightarrow> async_state
     \<Rightarrow> (ipc_callid_t \<times> ipc_call_t option) outcome list \<times> async_state" where
  "get_call_polls K conn [] s = ([], s)"
| "get_call_polls K conn ((usecs, now) # rest) s =
     (case async_get_call_timeout K conn usecs now s of
        (Suspended, s1) \<Rightarrow> ([Suspended], s1)
      | (Returned r, s1) \<Rightarrow>
          (case get_call_polls K conn rest s1 of (rs, s2) \<Rightarrow> (Returned r # rs, s2)))"

subsection \<open>Reading the recorded effects\<close>

text \<open>The answers given with \<^verbatim>\<open>ipc_answer_0\<close>, in the order in which they were given.\<close>

fun answer_of :: "effect \<Rightarrow> (ipc_callid_t \<times> errno) list" where
  "answer_of (IPC_ANSWER_0 cid rv) = [(cid, rv)]"
| "answer_of e = []"

definition answers :: "async_state \<Rightarrow> (ipc_callid_t \<times> errno) list" where
  "answers s = concat (map answer_of (trace s))"

text \<open>The fibrils handed to \<^verbatim>\<open>fibril_add_ready\<close>, in the order in which they were made ready.\<close>

fun ready_of :: "effect \<Rightarrow> fid_t list" where
  "ready_of (FIBRIL_ADD_READY f) = [f]"
| "ready_of e = []"

definition readied :: "async_state \<Rightarrow> fid_t list" where
  "readied s = concat (map ready_of (trace s))"

subsection \<open>The framework as a machine\<close>

text \<open>
  One step of the framework is one of its functions run from its entry, or from a fibril
  switch, to its next return or fibril switch; on a single thread the fibrils run one at
  a time, so an execution is a sequence of such steps. An event names the step and
  carries its arguments and what the allocator, the scheduler and the clock give it.
  A step that ends in a fault leaves the state in which the fault occurs. What the program
  does from a fault on is not defined, so a sequence of steps describes the program up to
  its first fault.
\<close>

datatype event =
    HANDLE_CALL ipc_callid_t ipc_call_t call_env
  | NEW_CONNECTION ipcarg_t ipc_callid_t "ipc_call_t option" ptr ptr fid_t
  | EXPIRED_TIMEOUTS timeval
  | GET_CALL ptr suseconds_t timeval
  | GET_CALL_RESUME ptr suseconds_t
  | CONNECTION_EXIT ptr
  | SEND_FAST int ipcarg_t ipcarg_t ipcarg_t ipcarg_t ipcarg_t ptr ptr
  | SEND_SLOW int ipcarg_t ipcarg_t ipcarg_t ipcarg_t ipcarg_t ipcarg_t ptr ptr
  | REPLY_RECEIVED ptr int "ipc_call_t option"
  | WAIT_FOR ptr bool fid_t
  | WAIT_FOR_RESUME ptr bool
  | WAIT_TIMEOUT ptr bool suseconds_t timeval fid_t
  | WAIT_TIMEOUT_RESUME ptr bool
  | USLEEP suseconds_t ptr timeval fid_t
  | USLEEP_RESUME ptr

datatype result =
    NO_RESULT
  | NEW_FIBRIL fid_t
  | GOT_CALL "(ipc_callid_t \<times> ipc_call_t option) outcome"
  | SENT ptr
  | WAITED "ipcarg_t option outcome"
  | WAITED_TIMEOUT "(errno \<times> ipcarg_t option) outcome"
  | SLEPT "unit outcome"
  | FAULTED fault

fun step :: "ipc_h \<Rightarrow> event \<Rightarrow> async_state \<Rightarrow> result \<times> async_state" where
  "step K (HANDLE_CALL cid icall env) s = (NO_RESULT, handle_call K cid icall env s)"
| "step K (NEW_CONNECTION hash cid icall cfib conn new_fid) s =
     (case async_new_connection hash cid icall cfib conn new_fid s of (f, s1) \<Rightarrow> (NEW_FIBRIL f, s1))"
| "step K (EXPIRED_TIMEOUTS tv) s = (NO_RESULT, handle_expired_timeouts tv s)"
| "step K (GET_CALL conn usecs now) s =
     (case async_get_call_timeout K conn usecs now s of (r, s1) \<Rightarrow> (GOT_CALL r, s1))"
| "step K (GET_CALL_RESUME conn usecs) s =
     (case async_get_call_timeout_resume K conn usecs s of (r, s1) \<Rightarrow> (GOT_CALL r, s1))"
| "step K (CONNECTION_EXIT conn) s =
     (case connection_fibril_exit conn s of
        Inl (f, s1) \<Rightarrow> (FAULTED f, s1)
      | Inr s1 \<Rightarrow> (NO_RESULT, s1))"
| "step K (SEND_FAST phoneid meth a1 a2 a3 a4 dptr msg) s =
     (case async_send_fast phoneid meth a1 a2 a3 a4 dptr msg s of (a, s1) \<Rightarrow> (SENT a, s1))"
| "step K (SEND_SLOW phoneid meth a1 a2 a3 a4 a5 dptr msg) s =
     (case async_send_slow phoneid meth a1 a2 a3 a4 a5 dptr msg s of (a, s1) \<Rightarrow> (SENT a, s1))"
| "step K (REPLY_RECEIVED msg rv data) s = (NO_RESULT, reply_received K msg rv data s)"
| "step K (WAIT_FOR msg want self) s =
     (case async_wait_for msg want self s of (r, s1) \<Rightarrow> (WAITED r, s1))"
| "step K (WAIT_FOR_RESUME msg want) s =
     (case async_wait_for_resume msg want s of (r, s1) \<Rightarrow> (WAITED (Returned r), s1))"
| "step K (WAIT_TIMEOUT msg want timeout now self) s =
     (case async_wait_timeout msg want timeout now self s of (r, s1) \<Rightarrow> (WAITED_TIMEOUT r, s1))"
| "step K (WAIT_TIMEOUT_RESUME msg want) s =
     (case async_wait_timeout_resume msg want s of (r, s1) \<Rightarrow> (WAITED_TIMEOUT (Returned r), s1))"
| "step K (USLEEP timeout msg now self) s =
     (case async_usleep timeout msg now self s of (r, s1) \<Rightarrow> (SLEPT r, s1))"
| "step K (USLEEP_RESUME msg) s = (SLEPT (Returned ()), async_usleep_resume msg s)"

fun run :: "ipc_h \<Rightarrow> event list \<Rightarrow> async_state \<Rightarrow> async_state" where
  "run K [] s = s"
| "run K (ev # evs) s = run K evs (snd (step K ev s))"

text \<open>
  The inbox of the connection \<open>conn\<close> seen from both ends. \<open>routed\<close> is the message
  that a step hands to \<^verbatim>\<open>route_call\<close> and that \<^verbatim>\<open>route_call\<close> accepts for \<open>conn\<close>;
  \<open>returned\<close> is what a call of \<^verbatim>\<open>async_get_call_timeout\<close> on \<open>conn\<close> returns (nothing
  while the fibril is suspended), and \<open>taken\<close> is what it returns when it finds a message
  in the inbox.
\<close>

fun routed :: "ipc_h \<Rightarrow> ptr \<Rightarrow> event \<Rightarrow> async_state \<Rightarrow> msg_t list" where
  "routed K conn (HANDLE_CALL cid icall env) s =
     (if cid AND IPC_CALLID_NOTIFICATION K = 0 \<and>
         imethod icall \<noteq> IPC_M_CONNECT_ME K \<and> imethod icall \<noteq> IPC_M_CONNECT_ME_TO K \<and>
         fst (route_call K cid icall (msg_ok env) s) \<and>
         hash_table_find s (in_phone_hash icall) = Some conn
      then [\<lparr>callid = cid, call = icall\<rparr>] else [])"
| "routed K conn ev s = []"

fun reads_inbox :: "ptr \<Rightarrow> event \<Rightarrow> bool" where
  "reads_inbox conn (GET_CALL c usecs now) = (c = conn)"
| "reads_inbox conn (GET_CALL_RESUME c usecs) = (c = conn)"
| "reads_inbox conn ev = False"

fun returned :: "ipc_h \<Rightarrow> ptr \<Rightarrow> event \<Rightarrow> async_state \<Rightarrow> (ipc_callid_t \<times> ipc_call_t option) list" where
  "returned K conn ev s =
     (if reads_inbox conn ev
      then (case fst (step K ev s) of GOT_CALL (Returned r) \<Rightarrow> [r] | _ \<Rightarrow> [])
      else [])"

fun taken :: "ipc_h \<Rightarrow> ptr \<Rightarrow> event \<Rightarrow> async_state \<Rightarrow> (ipc_callid_t \<times> ipc_call_t option) list" where
  "taken K conn ev s = (if msg_queue (conns s conn) \<noteq> [] then returned K conn ev s else [])"

text \<open>The same along an execution.\<close>

fun all_routed :: "ipc_h \<Rightarrow> ptr \<Rightarrow> event list \<Rightarrow> async_state \<Rightarrow> msg_t list" where
  "all_routed K conn [] s = []"
| "all_routed K conn (ev # evs) s = routed K conn ev s @ all_routed K conn evs (snd (step K ev s))"

fun all_returned :: "ipc_h \<Rightarrow> ptr \<Rightarrow> event list \<Rightarrow> async_state \<Rightarrow> (ipc_callid_t \<times> ipc_call_t option) list" where
  "all_returned K conn [] s = []"
| "all_returned K conn (ev # evs) s = returned K conn ev s @ all_returned K conn evs (snd (step K ev s))"

fun all_taken :: "ipc_h \<Rightarrow> ptr \<Rightarrow> event list \<Rightarrow> async_state \<Rightarrow> (ipc_callid_t \<times> ipc_call_t option) list" where
  "all_taken K conn [] s = []"
| "all_taken K conn (ev # evs) s = taken K conn ev s @ all_taken K conn evs (snd (step K ev s))"

text \<open>
  The steps that begin or end the life of the connection structure at \<open>conn\<close>:
  \<^verbatim>\<open>async_new_connection\<close> on a block that \<^verbatim>\<open>malloc\<close> returns at this address, and the
  end of the connection fibril.
\<close>

fun resets_inbox :: "ipc_h \<Rightarrow> ptr \<Rightarrow> event \<Rightarrow> bool" where
  "resets_inbox K conn (HANDLE_CALL cid icall env) =
     (cid AND IPC_CALLID_NOTIFICATION K = 0 \<and>
      (imethod icall = IPC_M_CONNECT_ME K \<or> imethod icall = IPC_M_CONNECT_ME_TO K) \<and>
      conn_ret env = conn)"
| "resets_inbox K conn (NEW_CONNECTION hash cid icall cfib c new_fid) = (c = conn)"
| "resets_inbox K conn (CONNECTION_EXIT c) = (c = conn)"
| "resets_inbox K conn ev = False"

definition as_pair :: "msg_t \<Rightarrow> ipc_callid_t \<times> ipc_call_t option" where
  "as_pair m = (callid m, Some (call m))"

text \<open>
  The outbound message at \<open>msg\<close> along an execution: the steps that set the message up
  (a send for which \<^verbatim>\<open>malloc\<close> returns this address), the steps that are its reply
  callback, the steps at which its \<^verbatim>\<open>done\<close> flag changes, and the status that the last
  reply callback was given.
\<close>

fun creates_amsg :: "ptr \<Rightarrow> event \<Rightarrow> bool" where
  "creates_amsg msg (SEND_FAST phoneid meth a1 a2 a3 a4 dptr m) = (m = msg)"
| "creates_amsg msg (SEND_SLOW phoneid meth a1 a2 a3 a4 a5 dptr m) = (m = msg)"
| "creates_amsg msg ev = False"

fun is_reply :: "ptr \<Rightarrow> event \<Rightarrow> bool" where
  "is_reply msg (REPLY_RECEIVED m rv data) = (m = msg)"
| "is_reply msg ev = False"

fun done_changes :: "ipc_h \<Rightarrow> ptr \<Rightarrow> event list \<Rightarrow> async_state \<Rightarrow> (event \<times> bool \<times> bool) list" where
  "done_changes K msg [] s = []"
| "done_changes K msg (ev # evs) s =
     (if done_flag (amsgs (snd (step K ev s)) msg) \<noteq> done_flag (amsgs s msg)
      then [(ev, done_flag (amsgs s msg), done_flag (amsgs (snd (step K ev s)) msg))] else []) @
     done_changes K msg evs (snd (step K ev s))"

fun last_status :: "ptr \<Rightarrow> event list \<Rightarrow> int option" where
  "last_status msg [] = None"
| "last_status msg (ev # evs) =
     (case last_status msg evs of
        Some rv \<Rightarrow> Some rv
      | None \<Rightarrow> (case ev of REPLY_RECEIVED m rv data \<Rightarrow> if m = msg then Some rv else None | _ \<Rightarrow> None))"

text \<open>
  The timeout list is in order when the deadlines do not decrease from its head to its
  tail, no awaiter is linked twice, and every linked awaiter has its \<^verbatim>\<open>inlist\<close> flag set
  and belongs to a suspended fibril.
\<close>

definition timeout_inv :: "async_state \<Rightarrow> bool" where
  "timeout_inv s =
     (sorted (map (expires_of s) (timeout_list s)) \<and>
      distinct (timeout_list s) \<and>
      (\<forall>r \<in> set (timeout_list s). inlist (to_event (get_wdata s r)) \<and> \<not> active (get_wdata s r)))"

text \<open>
  Modelled from the spec: what the fibril scheduler and the allocator, which are not
  among the sources, guarantee to a step. A suspended fibril resumes only when it was
  woken, and waking sets the \<^verbatim>\<open>active\<close> flag of its awaiter; so a step that starts or
  continues a wait on an awaiter finds that awaiter active. A block that \<^verbatim>\<open>malloc\<close>
  returns is not in use, so its awaiter is not linked in the timeout list.
\<close>

fun enabled :: "ipc_h \<Rightarrow> event \<Rightarrow> async_state \<Rightarrow> bool" where
  "enabled K (HANDLE_CALL cid icall env) s =
     (conn_ret env = 0 \<or> Conn_wdata (conn_ret env) \<notin> set (timeout_list s))"
| "enabled K (NEW_CONNECTION hash cid icall cfib conn new_fid) s =
     (conn = 0 \<or> Conn_wdata conn \<notin> set (timeout_list s))"
| "enabled K (GET_CALL conn usecs now) s = active (wdata (conns s conn))"
| "enabled K (GET_CALL_RESUME conn usecs) s = active (wdata (conns s conn))"
| "enabled K (SEND_FAST phoneid meth a1 a2 a3 a4 dptr msg) s =
     (msg = 0 \<or> Amsg_wdata msg \<notin> set (timeout_list s))"
| "enabled K (SEND_SLOW phoneid meth a1 a2 a3 a4 a5 dptr msg) s =
     (msg = 0 \<or> Amsg_wdata msg \<notin> set (timeout_list s))"
| "enabled K (WAIT_FOR msg want self) s = active (wdata (amsgs s msg))"
| "enabled K (WAIT_TIMEOUT msg want timeout now self) s = active (wdata (amsgs s msg))"
| "enabled K (USLEEP timeout msg now self) s =
     (msg = 0 \<or> Amsg_wdata msg \<notin> set (timeout_list s))"
| "enabled K ev s = True"

fun run_enabled :: "ipc_h \<Rightarrow> event list \<Rightarrow> async_state \<Rightarrow> bool" where
  "run_enabled K [] s = True"
| "run_enabled K (ev # evs) s = (enabled K ev s \<and> run_enabled K evs (snd (step K ev s)))"

subsection \<open>Example values\<close>

text \<open>
  One choice of the header's numbers, and a state whose memory is all zero, with an empty
  connection table and an empty timeout list, for evaluating the functions on concrete inputs.
\<close>

definition ipc_h_example :: ipc_h where
  "ipc_h_example =
     \<lparr>IPC_M_PHONE_HUNGUP = 5, IPC_M_CONNECT_ME = 2, IPC_M_CONNECT_ME_TO = 4,
      IPC_M_DATA_WRITE = 8, IPC_CALLID_NOTIFICATION = 2, ipcarg_bits = 64\<rparr>"

definition awaiter_zero :: awaiter_t where
  "awaiter_zero = \<lparr>fid = 0, active = False, to_event = \<lparr>inlist = False, occurred = False, expires = 0\<rparr>\<rparr>"

definition amsg_zero :: amsg_t where
  "amsg_zero = \<lparr>wdata = awaiter_zero, done_flag = False, dataptr = 0, retval = 0\<rparr>"

definition conn_zero :: connection_t where
  "conn_zero =
     \<lparr>wdata = awaiter_zero, conn_in_phone_hash = 0, msg_queue = [], conn_callid = 0,
      conn_call = zero_call, close_callid = 0, cfibril = 0\<rparr>"

definition state_zero :: async_state where
  "state_zero =
     \<lparr>conns = (\<lambda>p. conn_zero), amsgs = (\<lambda>p. amsg_zero), calls = (\<lambda>p. zero_call),
      conn_hash_table = (\<lambda>i. []), timeout_list = [], client_connection = 0, trace = []\<rparr>"

text \<open>
  A state with one connection, at address 1 and with phone hash 48, whose inbox holds
  two calls.
\<close>

definition state_one_conn :: async_state where
  "state_one_conn =
     state_zero
       \<lparr>conns := (\<lambda>p. conn_zero)
          (1 := conn_zero
             \<lparr>wdata := awaiter_zero\<lparr>fid := 9, active := True\<rparr>,
              conn_in_phone_hash := 48,
              msg_queue := [\<lparr>callid = 16, call = zero_call\<lparr>imethod := 1024, in_phone_hash := 48\<rparr>\<rparr>,
                            \<lparr>callid = 24, call = zero_call\<lparr>imethod := 1025, in_phone_hash := 48\<rparr>\<rparr>]\<rparr>),
        conn_hash_table := (\<lambda>i. [])(3 := [1])\<rparr>"

text \<open>
  A state with one connection, at address 1 and with phone hash 48, whose fibril (7)
  runs and whose inbox is empty, and a hangup call arriving on that phone.
\<close>

definition state_idle_conn :: async_state where
  "state_idle_conn =
     state_zero
       \<lparr>conns := (\<lambda>p. conn_zero)
          (1 := conn_zero\<lparr>wdata := awaiter_zero\<lparr>fid := 7, active := True\<rparr>, conn_in_phone_hash := 48\<rparr>),
        conn_hash_table := (\<lambda>i. [])(3 := [1])\<rparr>"

definition hangup_call :: ipc_call_t where
  "hangup_call = zero_call\<lparr>imethod := 5, arg1 := 11, in_phone_hash := 48\<rparr>"

definition user_call :: "nat \<Rightarrow> ipc_call_t" where
  "user_call n = zero_call\<lparr>imethod := 1024 + n, in_phone_hash := 48\<rparr>"

definition env_ok :: call_env where
  "env_ok = \<lparr>msg_ok = True, conn_ret = 0, fid_ret = 0\<rparr>"

text \<open>
  The state that the framework reaches from the empty one when it accepts a connection
  (phone hash 48, structure at address 1, fibril 7) and then routes two calls to it that
  the connection function does not read.
\<close>

definition connect_call :: ipc_call_t where
  "connect_call = zero_call\<lparr>imethod := 4, arg5 := 48\<rparr>"

definition env_conn :: call_env where
  "env_conn = \<lparr>msg_ok = True, conn_ret = 1, fid_ret = 7\<rparr>"

definition state_two_queued :: async_state where
  "state_two_queued =
     run ipc_h_example
       [HANDLE_CALL 8 connect_call env_conn,
        HANDLE_CALL 16 (user_call 0) env_ok,
        HANDLE_CALL 24 (user_call 1) env_ok] state_zero"

section \<open>Properties\<close>

subsection \<open>How the elementary operations act on the state\<close>

lemma emit_fields [simp]:
  "conns (emit e s) = conns s"
  "amsgs (emit e s) = amsgs s"
  "calls (emit e s) = calls s"
  "conn_hash_table (emit e s) = conn_hash_table s"
  "timeout_list (emit e s) = timeout_list s"
  "client_connection (emit e s) = client_connection s"
  "trace (emit e s) = trace s @ [e]"
  by (simp_all add: emit_def)

lemma upd_conn_fields [simp]:
  "conns (upd_conn p f s) = (conns s)(p := f (conns s p))"
  "amsgs (upd_conn p f s) = amsgs s"
  "calls (upd_conn p f s) = calls s"
  "conn_hash_table (upd_conn p f s) = conn_hash_table s"
  "timeout_list (upd_conn p f s) = timeout_list s"
  "client_connection (upd_conn p f s) = client_connection s"
  "trace (upd_conn p f s) = trace s"
  by (simp_all add: upd_conn_def)

lemma upd_amsg_fields [simp]:
  "conns (upd_amsg p f s) = conns s"
  "amsgs (upd_amsg p f s) = (amsgs s)(p := f (amsgs s p))"
  "calls (upd_amsg p f s) = calls s"
  "conn_hash_table (upd_amsg p f s) = conn_hash_table s"
  "timeout_list (upd_amsg p f s) = timeout_list s"
  "client_connection (upd_amsg p f s) = client_connection s"
  "trace (upd_amsg p f s) = trace s"
  by (simp_all add: upd_amsg_def)

lemma upd_wdata_fields [simp]:
  "calls (upd_wdata r f s) = calls s"
  "conn_hash_table (upd_wdata r f s) = conn_hash_table s"
  "timeout_list (upd_wdata r f s) = timeout_list s"
  "client_connection (upd_wdata r f s) = client_connection s"
  "trace (upd_wdata r f s) = trace s"
  by (cases r; simp)+

lemma list_remove_timeout_fields [simp]:
  "conns (list_remove_timeout r s) = conns s"
  "amsgs (list_remove_timeout r s) = amsgs s"
  "calls (list_remove_timeout r s) = calls s"
  "conn_hash_table (list_remove_timeout r s) = conn_hash_table s"
  "timeout_list (list_remove_timeout r s) = remove1 r (timeout_list s)"
  "client_connection (list_remove_timeout r s) = client_connection s"
  "trace (list_remove_timeout r s) = trace s"
  by (simp_all add: list_remove_timeout_def)

lemmas effect_defs =
  futex_down_def futex_up_def ipc_answer_0_def fibril_add_ready_def free_def free_msg_def

lemma hash_table_find_cong:
  "conns s' = conns s \<Longrightarrow> conn_hash_table s' = conn_hash_table s \<Longrightarrow>
     hash_table_find s' key = hash_table_find s key"
  by (simp add: hash_table_find_def conn_compare_def [abs_def])

lemma hash_table_find_emit [simp]: "hash_table_find (emit e s) key = hash_table_find s key"
  by (rule hash_table_find_cong) simp_all

lemma get_wdata_emit [simp]: "get_wdata (emit e s) r = get_wdata s r"
  by (cases r) simp_all

lemma expires_of_emit [simp]: "expires_of (emit e s) r = expires_of s r"
  by (simp add: expires_of_def)

lemma async_insert_timeout_fields [simp]:
  "trace (async_insert_timeout wd s) = trace s"
  "calls (async_insert_timeout wd s) = calls s"
  "conn_hash_table (async_insert_timeout wd s) = conn_hash_table s"
  "client_connection (async_insert_timeout wd s) = client_connection s"
  by (simp_all add: async_insert_timeout_def Let_def)

lemma timeout_walk_set [simp]: "set (timeout_walk ex e wd l) = insert wd (set l)"
  by (induction l) auto

lemma async_insert_timeout_set [simp]:
  "set (timeout_list (async_insert_timeout wd s)) = insert wd (set (timeout_list s))"
  by (simp add: async_insert_timeout_def Let_def)

subsection \<open>Waiting with a negative timeout\<close>

text \<open>
  Claim C9. For every negative timeout, \<^verbatim>\<open>async_wait_timeout\<close> returns \<open>ETIMEOUT\<close> at
  once and leaves the whole state as it was: no futex operation and no \<^verbatim>\<open>free\<close> is
  recorded, no member of the message is written, and nothing is stored through
  \<^verbatim>\<open>retval\<close>. The message's \<^verbatim>\<open>done\<close> flag plays no part: the statement holds for
  every state, also one in which the reply has arrived.
\<close>

theorem async_wait_timeout_negative:
  "timeout < 0 \<Longrightarrow>
     async_wait_timeout msg want timeout now self s = (Returned (ETIMEOUT, None), s)"
  by (simp add: async_wait_timeout_def)

theorem async_wait_timeout_negative_witness:
  "done_flag (amsgs (upd_amsg 1 (\<lambda>m. m\<lparr>done_flag := True, retval := 7\<rparr>) state_zero) 1) \<and>
   async_wait_timeout 1 True (- 1) 100 3 (upd_amsg 1 (\<lambda>m. m\<lparr>done_flag := True, retval := 7\<rparr>) state_zero)
     = (Returned (ETIMEOUT, None), upd_amsg 1 (\<lambda>m. m\<lparr>done_flag := True, retval := 7\<rparr>) state_zero)"
  using async_wait_timeout_negative [of "- 1" 1 True 100 3
      "upd_amsg 1 (\<lambda>m. m\<lparr>done_flag := True, retval := 7\<rparr>) state_zero"]
  by (simp add: upd_amsg_def)

subsection \<open>Sleeping when the allocation fails\<close>

text \<open>
  Claim C10. When the allocation of its awaiter record fails (\<^verbatim>\<open>malloc\<close> returns
  \<^verbatim>\<open>NULL\<close>), \<^verbatim>\<open>async_usleep\<close> returns without a fibril switch and leaves the whole
  state as it was, the timeout list included; its result carries no error. When the
  allocation succeeds, the same call links the awaiter in the timeout list and suspends
  the fibril.
\<close>

theorem async_usleep_malloc_failure:
  "async_usleep timeout 0 now self s = (Returned (), s) \<and>
   (msg \<noteq> 0 \<longrightarrow>
      fst (async_usleep timeout msg now self s) = Suspended \<and>
      Amsg_wdata msg \<in> set (timeout_list (snd (async_usleep timeout msg now self s))) \<and>
      trace (snd (async_usleep timeout msg now self s))
        = trace s @ [FUTEX_DOWN, FIBRIL_SWITCH_TO_MANAGER])"
  by (simp add: async_usleep_def Let_def effect_defs)

theorem async_usleep_malloc_failure_witness:
  "async_usleep 10 0 100 5 state_zero = (Returned (), state_zero) \<and>
   (2::nat) \<noteq> 0 \<and>
   fst (async_usleep 10 2 100 5 state_zero) = Suspended \<and>
   timeout_list (snd (async_usleep 10 2 100 5 state_zero)) = [Amsg_wdata 2] \<and>
   trace (snd (async_usleep 10 2 100 5 state_zero)) = [FUTEX_DOWN, FIBRIL_SWITCH_TO_MANAGER]"
  using async_usleep_malloc_failure [of 10 100 5 state_zero 2]
  by (simp add: async_usleep_def Let_def async_insert_timeout_def effect_defs state_zero_def)

subsection \<open>Calls that cannot be routed\<close>

lemma route_call_false:
  "(\<not> fst (route_call K cid icall ok s)) = (hash_table_find s (in_phone_hash icall) = None \<or> \<not> ok)"
  by (simp add: route_call_def Let_def effect_defs split: option.splits)

lemma route_call_false_state:
  "\<not> fst (route_call K cid icall ok s) \<Longrightarrow>
     snd (route_call K cid icall ok s) = s\<lparr>trace := trace s @ [FUTEX_DOWN, FUTEX_UP]\<rparr>"
  by (simp add: route_call_def Let_def effect_defs emit_def split: option.splits if_splits)

text \<open>
  Claim C6. Take a received call without the notification bit whose method is neither
  \<^verbatim>\<open>IPC_M_CONNECT_ME\<close> nor \<^verbatim>\<open>IPC_M_CONNECT_ME_TO\<close>. \<^verbatim>\<open>route_call\<close> returns false
  exactly when the hash of the call's phone finds no connection in the table or the
  allocation of the inbox node fails. In both cases \<^verbatim>\<open>handle_call\<close> does the same: it
  leaves the state as it was but for the futex being taken and released and one answer,
  \<open>EHANGUP\<close> to the call. When \<^verbatim>\<open>route_call\<close> returns true, \<^verbatim>\<open>handle_call\<close> gives no
  answer at all.
\<close>

theorem handle_call_unrouted:
  assumes "cid AND IPC_CALLID_NOTIFICATION K = 0"
    and "imethod icall \<noteq> IPC_M_CONNECT_ME K"
    and "imethod icall \<noteq> IPC_M_CONNECT_ME_TO K"
  shows "(\<not> fst (route_call K cid icall (msg_ok env) s))
           = (hash_table_find s (in_phone_hash icall) = None \<or> \<not> msg_ok env) \<and>
         (\<not> fst (route_call K cid icall (msg_ok env) s) \<longrightarrow>
            handle_call K cid icall env s
              = s\<lparr>trace := trace s @ [FUTEX_DOWN, FUTEX_UP, IPC_ANSWER_0 cid EHANGUP]\<rparr>) \<and>
         (fst (route_call K cid icall (msg_ok env) s) \<longrightarrow>
            handle_call K cid icall env s = snd (route_call K cid icall (msg_ok env) s) \<and>
            answers (handle_call K cid icall env s) = answers s)"
proof (intro conjI impI)
  show "(\<not> fst (route_call K cid icall (msg_ok env) s))
           = (hash_table_find s (in_phone_hash icall) = None \<or> \<not> msg_ok env)"
    by (rule route_call_false)
next
  assume u: "\<not> fst (route_call K cid icall (msg_ok env) s)"
  obtain b s1 where r: "route_call K cid icall (msg_ok env) s = (b, s1)"
    by (cases "route_call K cid icall (msg_ok env) s")
  with u have "\<not> b" by simp
  moreover from route_call_false_state [OF u] r
  have "s1 = s\<lparr>trace := trace s @ [FUTEX_DOWN, FUTEX_UP]\<rparr>" by simp
  ultimately show "handle_call K cid icall env s
      = s\<lparr>trace := trace s @ [FUTEX_DOWN, FUTEX_UP, IPC_ANSWER_0 cid EHANGUP]\<rparr>"
    using assms r by (simp add: handle_call_def ipc_answer_0_def emit_def)
next
  assume u: "fst (route_call K cid icall (msg_ok env) s)"
  obtain b s1 where r: "route_call K cid icall (msg_ok env) s = (b, s1)"
    by (cases "route_call K cid icall (msg_ok env) s")
  with u have b by simp
  with r show "handle_call K cid icall env s = snd (route_call K cid icall (msg_ok env) s)"
    using assms by (simp add: handle_call_def)
next
  assume u: "fst (route_call K cid icall (msg_ok env) s)"
  obtain b s1 where r: "route_call K cid icall (msg_ok env) s = (b, s1)"
    by (cases "route_call K cid icall (msg_ok env) s")
  with u have b by simp
  with r have h: "handle_call K cid icall env s = s1"
    using assms by (simp add: handle_call_def)
  from r have "answers s1 = answers s"
    by (auto simp add: route_call_def Let_def effect_defs answers_def split: option.splits if_splits)
  with h show "answers (handle_call K cid icall env s) = answers s"
    by simp
qed

theorem handle_call_unrouted_witness:
  "(16::nat) AND IPC_CALLID_NOTIFICATION ipc_h_example = 0 \<and>
   imethod (user_call 1) \<noteq> IPC_M_CONNECT_ME ipc_h_example \<and>
   imethod (user_call 1) \<noteq> IPC_M_CONNECT_ME_TO ipc_h_example \<and>
   hash_table_find state_zero (in_phone_hash (user_call 1)) = None \<and>
   handle_call ipc_h_example 16 (user_call 1) env_ok state_zero
     = state_zero\<lparr>trace := [FUTEX_DOWN, FUTEX_UP, IPC_ANSWER_0 16 EHANGUP]\<rparr> \<and>
   hash_table_find state_idle_conn (in_phone_hash (user_call 1)) = Some 1 \<and>
   handle_call ipc_h_example 16 (user_call 1) (env_ok\<lparr>msg_ok := False\<rparr>) state_idle_conn
     = state_idle_conn\<lparr>trace := [FUTEX_DOWN, FUTEX_UP, IPC_ANSWER_0 16 EHANGUP]\<rparr> \<and>
   fst (route_call ipc_h_example 16 (user_call 1) True state_idle_conn) \<and>
   answers (handle_call ipc_h_example 16 (user_call 1) env_ok state_idle_conn) = []"
proof -
  have h: "(16::nat) AND IPC_CALLID_NOTIFICATION ipc_h_example = 0"
    "imethod (user_call 1) \<noteq> IPC_M_CONNECT_ME ipc_h_example"
    "imethod (user_call 1) \<noteq> IPC_M_CONNECT_ME_TO ipc_h_example"
    by (simp_all add: ipc_h_example_def user_call_def zero_call_def)
  have f0: "hash_table_find state_zero (in_phone_hash (user_call 1)) = None" by code_simp
  have f1: "hash_table_find state_idle_conn (in_phone_hash (user_call 1)) = Some 1" by code_simp
  have t0: "trace state_zero = []" and t1: "trace state_idle_conn = []"
    and a1: "answers state_idle_conn = []" by code_simp+
  have ok: "msg_ok env_ok" "\<not> msg_ok (env_ok\<lparr>msg_ok := False\<rparr>)" by (simp_all add: env_ok_def)
  from handle_call_unrouted [OF h, of env_ok state_zero] f0 t0
  have r0: "handle_call ipc_h_example 16 (user_call 1) env_ok state_zero
     = state_zero\<lparr>trace := [FUTEX_DOWN, FUTEX_UP, IPC_ANSWER_0 16 EHANGUP]\<rparr>" by simp
  from handle_call_unrouted [OF h, of "env_ok\<lparr>msg_ok := False\<rparr>" state_idle_conn] ok t1
  have r1: "handle_call ipc_h_example 16 (user_call 1) (env_ok\<lparr>msg_ok := False\<rparr>) state_idle_conn
     = state_idle_conn\<lparr>trace := [FUTEX_DOWN, FUTEX_UP, IPC_ANSWER_0 16 EHANGUP]\<rparr>" by simp
  note th = handle_call_unrouted [OF h, of env_ok state_idle_conn]
  from th f1 ok have r2': "fst (route_call ipc_h_example 16 (user_call 1) (msg_ok env_ok) state_idle_conn)"
    by simp
  with th have "answers (handle_call ipc_h_example 16 (user_call 1) env_ok state_idle_conn)
      = answers state_idle_conn" by blast
  with a1 have r3: "answers (handle_call ipc_h_example 16 (user_call 1) env_ok state_idle_conn) = []"
    by simp
  from r2' ok have r2: "fst (route_call ipc_h_example 16 (user_call 1) True state_idle_conn)"
    by simp
  from h f0 r0 f1 r1 r2 r3 show ?thesis by blast
qed

subsection \<open>Reading a connection that was hung up\<close>

lemma get_call_hangup_step:
  assumes "msg_queue (conns s conn) = []" and "close_callid (conns s conn) \<noteq> 0"
  shows "fst (async_get_call_timeout K conn usecs now s)
           = Returned (close_callid (conns s conn), Some (zero_call\<lparr>imethod := IPC_M_PHONE_HUNGUP K\<rparr>))"
    and "msg_queue (conns (snd (async_get_call_timeout K conn usecs now s)) conn) = []"
    and "close_callid (conns (snd (async_get_call_timeout K conn usecs now s)) conn)
           = close_callid (conns s conn)"
  using assms
  by (simp_all add: async_get_call_timeout_def get_call_loop_def Let_def effect_defs)

text \<open>
  Claim C7. Whenever \<^verbatim>\<open>async_get_call_timeout\<close> runs on a connection whose inbox is
  empty and whose \<^verbatim>\<open>close_callid\<close> is not zero, it returns \<^verbatim>\<open>close_callid\<close> and stores
  the zeroed call record with the method \<^verbatim>\<open>IPC_M_PHONE_HUNGUP\<close>; it leaves the inbox
  empty and \<^verbatim>\<open>close_callid\<close> as it was, so that any number of successive calls, whatever
  their timeouts, all return that same identifier with that same record.
\<close>

theorem get_call_hangup_idempotent:
  assumes "msg_queue (conns s conn) = []" and "close_callid (conns s conn) \<noteq> 0"
  shows "fst (async_get_call_timeout K conn usecs now s)
           = Returned (close_callid (conns s conn), Some (zero_call\<lparr>imethod := IPC_M_PHONE_HUNGUP K\<rparr>)) \<and>
         fst (get_call_polls K conn args s)
           = replicate (length args)
               (Returned (close_callid (conns s conn), Some (zero_call\<lparr>imethod := IPC_M_PHONE_HUNGUP K\<rparr>)))"
proof
  show "fst (async_get_call_timeout K conn usecs now s)
           = Returned (close_callid (conns s conn), Some (zero_call\<lparr>imethod := IPC_M_PHONE_HUNGUP K\<rparr>))"
    using assms by (rule get_call_hangup_step)
next
  show "fst (get_call_polls K conn args s)
           = replicate (length args)
               (Returned (close_callid (conns s conn), Some (zero_call\<lparr>imethod := IPC_M_PHONE_HUNGUP K\<rparr>)))"
    using assms
  proof (induction args arbitrary: s)
    case Nil
    then show ?case by simp
  next
    case (Cons a args)
    obtain usecs now where a: "a = (usecs, now)" by (cases a)
    obtain r s1 where st: "async_get_call_timeout K conn usecs now s = (r, s1)"
      by (cases "async_get_call_timeout K conn usecs now s")
    from get_call_hangup_step [OF Cons.prems, of K usecs now] st
    have r: "r = Returned (close_callid (conns s conn), Some (zero_call\<lparr>imethod := IPC_M_PHONE_HUNGUP K\<rparr>))"
      and q: "msg_queue (conns s1 conn) = []"
      and c: "close_callid (conns s1 conn) = close_callid (conns s conn)"
      by simp_all
    from Cons.IH [of s1] q c Cons.prems
    have "fst (get_call_polls K conn args s1)
            = replicate (length args)
                (Returned (close_callid (conns s conn), Some (zero_call\<lparr>imethod := IPC_M_PHONE_HUNGUP K\<rparr>)))"
      by simp
    then show ?case
      using a st r by (cases "get_call_polls K conn args s1") simp
  qed
qed

theorem get_call_hangup_idempotent_witness:
  "msg_queue (conns (upd_conn 1 (\<lambda>c. c\<lparr>close_callid := 16\<rparr>) state_zero) 1) = [] \<and>
   close_callid (conns (upd_conn 1 (\<lambda>c. c\<lparr>close_callid := 16\<rparr>) state_zero) 1) \<noteq> 0 \<and>
   fst (async_get_call_timeout ipc_h_example 1 0 100 (upd_conn 1 (\<lambda>c. c\<lparr>close_callid := 16\<rparr>) state_zero))
     = Returned (16, Some (zero_call\<lparr>imethod := 5\<rparr>)) \<and>
   fst (get_call_polls ipc_h_example 1 [(0, 100), (50, 200), (0, 300)]
          (upd_conn 1 (\<lambda>c. c\<lparr>close_callid := 16\<rparr>) state_zero))
     = [Returned (16, Some (zero_call\<lparr>imethod := 5\<rparr>)),
        Returned (16, Some (zero_call\<lparr>imethod := 5\<rparr>)),
        Returned (16, Some (zero_call\<lparr>imethod := 5\<rparr>))]"
  using get_call_hangup_idempotent [of "upd_conn 1 (\<lambda>c. c\<lparr>close_callid := 16\<rparr>) state_zero" 1
      ipc_h_example 0 100 "[(0, 100), (50, 200), (0, 300)]"]
  by (simp add: state_zero_def conn_zero_def ipc_h_example_def numeral_3_eq_3)

subsection \<open>The end of a connection fibril\<close>

lemma answers_emit [simp]: "answers (emit e s) = answers s @ answer_of e"
  by (simp add: answers_def)

lemma answers_trace_cong: "trace s' = trace s \<Longrightarrow> answers s' = answers s"
  by (simp add: answers_def)

lemma answers_upd [simp]:
  "answers (upd_conn p f s) = answers s"
  "answers (upd_amsg q g s) = answers s"
  "answers (upd_wdata r h s) = answers s"
  "answers (list_remove_timeout r s) = answers s"
  by (simp_all add: answers_def)

lemma hangup_loop_trace:
  "trace (hangup_loop conn s)
     = trace s @
       concat (map (\<lambda>m. [IPC_ANSWER_0 (callid m) EHANGUP, FREE_MSG m]) (msg_queue (conns s conn)))"
proof (induction conn s rule: hangup_loop.induct)
  case (1 conn s)
  show ?case
  proof (cases "msg_queue (conns s conn)")
    case Nil
    then show ?thesis by (subst hangup_loop.simps) simp
  next
    case (Cons msg rest)
    with "1.IH" [OF Cons] show ?thesis
      by (subst hangup_loop.simps) (simp add: ipc_answer_0_def free_msg_def)
  qed
qed

lemma hangup_loop_conn:
  "conns (hangup_loop conn s) = (conns s)(conn := (conns s conn)\<lparr>msg_queue := []\<rparr>)"
proof (induction conn s rule: hangup_loop.induct)
  case (1 conn s)
  show ?case
  proof (cases "msg_queue (conns s conn)")
    case Nil
    then have "(conns s conn)\<lparr>msg_queue := []\<rparr> = conns s conn" by simp
    then have "(conns s)(conn := (conns s conn)\<lparr>msg_queue := []\<rparr>) = conns s" by simp
    with Nil show ?thesis by (subst hangup_loop.simps) simp
  next
    case (Cons msg rest)
    with "1.IH" [OF Cons] show ?thesis
      by (subst hangup_loop.simps) (auto simp add: ipc_answer_0_def free_msg_def fun_eq_iff)
  qed
qed

lemma hangup_loop_table:
  "conn_hash_table (hangup_loop conn s) = conn_hash_table s"
proof (induction conn s rule: hangup_loop.induct)
  case (1 conn s)
  show ?case
  proof (cases "msg_queue (conns s conn)")
    case Nil
    then show ?thesis by (subst hangup_loop.simps) simp
  next
    case (Cons msg rest)
    with "1.IH" [OF Cons] show ?thesis
      by (subst hangup_loop.simps) (simp add: ipc_answer_0_def free_msg_def)
  qed
qed

lemma hangup_loop_answers:
  "answers (hangup_loop conn s)
     = answers s @ map (\<lambda>m. (callid m, EHANGUP)) (msg_queue (conns s conn))"
proof -
  have "concat (map answer_of
          (concat (map (\<lambda>m. [IPC_ANSWER_0 (callid m) EHANGUP, FREE_MSG m]) ms)))
        = map (\<lambda>m. (callid m, EHANGUP)) ms" for ms
    by (induction ms) simp_all
  then show ?thesis by (simp add: answers_def hangup_loop_trace)
qed

lemma hash_table_remove_fields [simp]:
  "conns (hash_table_remove key s) = conns s"
  "amsgs (hash_table_remove key s) = amsgs s"
  "timeout_list (hash_table_remove key s) = timeout_list s"
  "answers (hash_table_remove key s) = answers s"
  by (simp_all add: hash_table_remove_def conn_remove_def free_def answers_def split: option.splits)

lemma hash_table_remove_found:
  "hash_table_find s key = Some cur \<Longrightarrow>
     conn_hash_table (hash_table_remove key s)
       = (conn_hash_table s)(conn_hash key := remove1 cur (conn_hash_table s (conn_hash key))) \<and>
     trace (hash_table_remove key s) = trace s @ [FREE cur]"
  by (simp add: hash_table_remove_def conn_remove_def free_def)

lemma hash_table_remove_trace:
  "trace (hash_table_remove key s)
     = trace s @ (case hash_table_find s key of None \<Rightarrow> [] | Some cur \<Rightarrow> [FREE cur])"
  by (simp add: hash_table_remove_def conn_remove_def free_def split: option.splits)

text \<open>
  The block of the connection is released during the removal exactly when the connection
  is the item that the table finds under the connection's phone hash.
\<close>

lemma released_by_removal:
  "released_since s (futex_up (hash_table_remove key (futex_down s))) conn
     = (hash_table_find s key = Some conn)"
proof -
  have f: "hash_table_find (futex_down s) key = hash_table_find s key"
    by (simp add: futex_down_def)
  show ?thesis
    by (simp add: released_since_def futex_up_def hash_table_remove_trace f)
       (auto simp add: futex_down_def emit_def split: option.splits)
qed

lemma connection_fibril_exit_released:
  assumes "hash_table_find s (conn_in_phone_hash (conns s conn)) = Some conn"
  shows "connection_fibril_exit conn s
     = Inl (USE_AFTER_FREE conn,
            futex_up (hash_table_remove (conn_in_phone_hash (conns s conn)) (futex_down s)))"
proof -
  have c: "conns (futex_down s) = conns s" by (simp add: futex_down_def)
  from assms show ?thesis
    unfolding connection_fibril_exit_def Let_def c by (simp add: released_by_removal)
qed

text \<open>
  When the removal releases no block or another one, the connection is read while it is in
  use: every message of the inbox is answered \<open>EHANGUP\<close> in inbox order and its node
  released, and \<^verbatim>\<open>close_callid\<close> is answered \<open>EOK\<close> if it is not zero.
\<close>

lemma connection_fibril_exit_in_use:
  assumes "hash_table_find s (conn_in_phone_hash (conns s conn)) \<noteq> Some conn"
  shows "\<exists>s'. connection_fibril_exit conn s = Inr s' \<and>
     answers s'
       = answers s @
         map (\<lambda>m. (callid m, EHANGUP)) (msg_queue (conns s conn)) @
         (if close_callid (conns s conn) \<noteq> 0 then [(close_callid (conns s conn), EOK)] else []) \<and>
     msg_queue (conns s' conn) = [] \<and>
     trace s'
       = trace s @ [FUTEX_DOWN] @
         (case hash_table_find s (conn_in_phone_hash (conns s conn)) of
            None \<Rightarrow> [] | Some cur \<Rightarrow> [FREE cur]) @
         [FUTEX_UP] @
         concat (map (\<lambda>m. [IPC_ANSWER_0 (callid m) EHANGUP, FREE_MSG m]) (msg_queue (conns s conn))) @
         (if close_callid (conns s conn) \<noteq> 0
          then [IPC_ANSWER_0 (close_callid (conns s conn)) EOK] else [])"
proof -
  define s2 where
    "s2 = futex_up (hash_table_remove (conn_in_phone_hash (conns s conn)) (futex_down s))"
  have c: "conns (futex_down s) = conns s" by (simp add: futex_down_def)
  have c2: "conns s2 = conns s" by (simp add: s2_def effect_defs)
  have a2: "answers s2 = answers s" by (simp add: s2_def effect_defs)
  have f: "hash_table_find (futex_down s) key = hash_table_find s key" for key
    by (simp add: futex_down_def)
  have t2: "trace s2 = trace s @ [FUTEX_DOWN] @
         (case hash_table_find s (conn_in_phone_hash (conns s conn)) of
            None \<Rightarrow> [] | Some cur \<Rightarrow> [FREE cur]) @ [FUTEX_UP]"
    by (simp add: s2_def futex_up_def hash_table_remove_trace f)
       (simp add: futex_down_def emit_def)
  from assms have nr: "\<not> released_since s s2 conn"
    by (simp add: s2_def released_by_removal)
  have ex: "connection_fibril_exit conn s =
      Inr (if close_callid (conns s conn) \<noteq> 0
           then ipc_answer_0 (close_callid (conns s conn)) EOK (hangup_loop conn s2)
           else hangup_loop conn s2)"
    unfolding connection_fibril_exit_def Let_def c s2_def [symmetric]
    using nr by (simp add: hangup_loop_conn c2)
  show ?thesis
    unfolding ex
    by (simp add: hangup_loop_answers hangup_loop_conn hangup_loop_trace a2 c2 t2 ipc_answer_0_def)
qed

text \<open>
  A connection that \<^verbatim>\<open>async_new_connection\<close> sets up under a phone hash that the table
  does not hold yet is the item that the table finds under that hash from then on.
\<close>

lemma async_new_connection_found:
  assumes "conn \<noteq> 0" and "new_fid \<noteq> 0" and "hash_table_find s hash = None"
  shows "hash_table_find (snd (async_new_connection hash cid icall cfib conn new_fid s)) hash = Some conn \<and>
         conn_in_phone_hash (conns (snd (async_new_connection hash cid icall cfib conn new_fid s)) conn) = hash"
proof -
  from assms(3) have n: "\<forall>x \<in> set (conn_hash_table s (conn_hash hash)). hash \<noteq> conn_in_phone_hash (conns s x)"
    by (simp add: hash_table_find_def conn_compare_def find_None_iff)
  have "find (\<lambda>x. x \<noteq> conn \<longrightarrow> hash = conn_in_phone_hash (conns s x)) (xs @ [conn]) = Some conn"
    if "\<forall>x \<in> set xs. hash \<noteq> conn_in_phone_hash (conns s x)" for xs
    using that by (induction xs) auto
  from this [OF n] assms(1,2) show ?thesis
    by (auto simp add: async_new_connection_def Let_def hash_table_find_def hash_table_insert_def
        conn_compare_def upd_conn_def set_fid_def set_active_def effect_defs emit_def
        split: option.splits intro!: arg_cong2 [where f = find] cong: find_cong)
qed

text \<open>
  Claim C5. The claim has the messages that are left in the inbox answered after the
  connection is removed from the table. The code releases the connection structure at the
  removal, in the callback \<^verbatim>\<open>conn_remove\<close>, and reads the inbox and \<^verbatim>\<open>close_callid\<close>
  from the released structure afterwards. Here the framework accepts a connection from the
  empty state (\<^verbatim>\<open>IPC_M_CONNECT_ME_TO\<close>, phone hash 48, structure at address 1) and routes
  two calls, 16 and 24, to it; the connection function returns without reading them. The
  end of \<^verbatim>\<open>connection_fibril\<close> finds the connection in the table, unlinks and releases
  it, and then reads released memory: up to that read no answer has been given, and what
  follows is not defined.
\<close>

theorem connection_fibril_exit_use_after_free:
  "map callid (msg_queue (conns state_two_queued 1)) = [16, 24] \<and>
   hash_table_find state_two_queued (conn_in_phone_hash (conns state_two_queued 1)) = Some 1 \<and>
   answers state_two_queued = [] \<and>
   connection_fibril_exit 1 state_two_queued
     = Inl (USE_AFTER_FREE 1, futex_up (hash_table_remove 48 (futex_down state_two_queued))) \<and>
   trace (futex_up (hash_table_remove 48 (futex_down state_two_queued)))
     = trace state_two_queued @ [FUTEX_DOWN, FREE 1, FUTEX_UP] \<and>
   answers (futex_up (hash_table_remove 48 (futex_down state_two_queued))) = []"
proof -
  have q: "map callid (msg_queue (conns state_two_queued 1)) = [16, 24]"
    unfolding state_two_queued_def by code_simp
  have k: "conn_in_phone_hash (conns state_two_queued 1) = 48"
    unfolding state_two_queued_def by code_simp
  have f: "hash_table_find state_two_queued 48 = Some 1"
    unfolding state_two_queued_def by code_simp
  have a: "answers state_two_queued = []"
    unfolding state_two_queued_def by code_simp
  from f have f1: "hash_table_find (futex_down state_two_queued) 48 = Some 1"
    by (simp add: futex_down_def)
  from connection_fibril_exit_released [of state_two_queued 1] f k
  have e: "connection_fibril_exit 1 state_two_queued
     = Inl (USE_AFTER_FREE 1, futex_up (hash_table_remove 48 (futex_down state_two_queued)))"
    by simp
  from hash_table_remove_found [OF f1]
  have t: "trace (futex_up (hash_table_remove 48 (futex_down state_two_queued)))
     = trace state_two_queued @ [FUTEX_DOWN, FREE 1, FUTEX_UP]"
    by (simp add: effect_defs)
  from a have a': "answers (futex_up (hash_table_remove 48 (futex_down state_two_queued))) = []"
    by (simp add: effect_defs)
  from q k f a e t a' show ?thesis by simp
qed

subsection \<open>Accepting written data within bounds\<close>

lemma accept_rejected:
  assumes "imethod data \<noteq> IPC_M_DATA_WRITE K \<or> size_rejected (arg2 data) min_size max_size granularity"
  shows "async_data_write_accept K bits (cid, data) nullterm min_size max_size granularity want env s
           = (accept_fail EINVAL, ipc_answer_0 cid EINVAL s)"
  using assms
  by (auto simp add: async_data_write_accept_def async_data_write_receive_def size_rejected_def)

lemma accept_nomem:
  assumes "imethod data = IPC_M_DATA_WRITE K"
    and "\<not> size_rejected (arg2 data) min_size max_size granularity"
    and "malloc_ret env = 0"
  shows "async_data_write_accept K bits (cid, data) nullterm min_size max_size granularity want env s
           = (accept_fail ENOMEM, ipc_answer_0 cid ENOMEM s)"
  using assms
  by (auto simp add: async_data_write_accept_def async_data_write_receive_def size_rejected_def Let_def)

lemma accept_finalize_failed:
  assumes "imethod data = IPC_M_DATA_WRITE K"
    and "\<not> size_rejected (arg2 data) min_size max_size granularity"
    and "malloc_ret env \<noteq> 0" and "finalize_rc env \<noteq> EOK"
  shows "async_data_write_accept K bits (cid, data) nullterm min_size max_size granularity want env s
           = (accept_fail (finalize_rc env),
              free (malloc_ret env) (emit (IPC_DATA_WRITE_FINALIZE cid (malloc_ret env) (arg2 data)) s))"
  using assms
  by (auto simp add: async_data_write_accept_def async_data_write_receive_def size_rejected_def Let_def)

lemma accept_ok:
  assumes "imethod data = IPC_M_DATA_WRITE K"
    and "\<not> size_rejected (arg2 data) min_size max_size granularity"
    and "malloc_ret env \<noteq> 0" and "finalize_rc env = EOK"
    and "nullterm \<longrightarrow> arg2 data + 1 < 2 ^ bits"
  shows "async_data_write_accept K bits (cid, data) nullterm min_size max_size granularity want env s
           = (\<lparr>accept_rc = EOK,
               data_out = Some (malloc_ret env,
                            map (payload env) [0..<arg2 data] @ (if nullterm then [0] else [])),
               received_out = (if want then Some (arg2 data) else None),
               overrun = False\<rparr>,
              emit (IPC_DATA_WRITE_FINALIZE cid (malloc_ret env) (arg2 data)) s)"
proof (cases nullterm)
  case True
  with assms(5) have m: "(arg2 data + 1) mod 2 ^ bits = arg2 data + 1" by simp
  have "(map (payload env) [0..<arg2 data] @ drop (arg2 data) (map (fresh env) [0..<arg2 data + 1]))
           [arg2 data := 0]
        = map (payload env) [0..<arg2 data] @ [0]"
    by (simp add: list_update_append drop_map)
  with True m assms(1-4) show ?thesis
    by (auto simp add: async_data_write_accept_def async_data_write_receive_def size_rejected_def Let_def
        simp del: upt_Suc)
next
  case False
  with assms(1-4) show ?thesis
    by (auto simp add: async_data_write_accept_def async_data_write_receive_def size_rejected_def Let_def)
qed


text \<open>
  Claim C8, as amended. \<^verbatim>\<open>async_data_write_accept\<close> answers \<open>EINVAL\<close> and returns
  \<open>EINVAL\<close>, allocating nothing, when the received call is not an \<^verbatim>\<open>IPC_M_DATA_WRITE\<close>
  call or when its size is below \<open>min_size\<close>, above a non-zero \<open>max_size\<close>, or not a
  multiple of a non-zero \<open>granularity\<close>. Otherwise it asks for a block of \<open>size\<close> bytes
  (\<open>size + 1\<close> when \<open>nullterm\<close> is set): if the allocation fails it answers and returns
  \<open>ENOMEM\<close>; if \<^verbatim>\<open>ipc_data_write_finalize\<close> fails it releases the block and returns that
  error; and if both succeed (and \<open>size + 1\<close> is representable when \<open>nullterm\<close> is set) it
  returns \<open>EOK\<close>, hands out the block holding the \<open>size\<close> bytes received, followed by a
  zero byte at index \<open>size\<close> when \<open>nullterm\<close> is set, and stores \<open>size\<close> to
  \<^verbatim>\<open>*received\<close> when that pointer is given.
\<close>

theorem async_data_write_accept_cases:
  "(imethod data \<noteq> IPC_M_DATA_WRITE K \<or> size_rejected (arg2 data) min_size max_size granularity \<longrightarrow>
      async_data_write_accept K bits (cid, data) nullterm min_size max_size granularity want env s
        = (accept_fail EINVAL, ipc_answer_0 cid EINVAL s)) \<and>
   (imethod data = IPC_M_DATA_WRITE K \<and> \<not> size_rejected (arg2 data) min_size max_size granularity \<and>
    malloc_ret env = 0 \<longrightarrow>
      async_data_write_accept K bits (cid, data) nullterm min_size max_size granularity want env s
        = (accept_fail ENOMEM, ipc_answer_0 cid ENOMEM s)) \<and>
   (imethod data = IPC_M_DATA_WRITE K \<and> \<not> size_rejected (arg2 data) min_size max_size granularity \<and>
    malloc_ret env \<noteq> 0 \<and> finalize_rc env \<noteq> EOK \<longrightarrow>
      async_data_write_accept K bits (cid, data) nullterm min_size max_size granularity want env s
        = (accept_fail (finalize_rc env),
           free (malloc_ret env) (emit (IPC_DATA_WRITE_FINALIZE cid (malloc_ret env) (arg2 data)) s))) \<and>
   (imethod data = IPC_M_DATA_WRITE K \<and> \<not> size_rejected (arg2 data) min_size max_size granularity \<and>
    malloc_ret env \<noteq> 0 \<and> finalize_rc env = EOK \<and> (nullterm \<longrightarrow> arg2 data + 1 < 2 ^ bits) \<longrightarrow>
      async_data_write_accept K bits (cid, data) nullterm min_size max_size granularity want env s
        = (\<lparr>accept_rc = EOK,
            data_out = Some (malloc_ret env,
                         map (payload env) [0..<arg2 data] @ (if nullterm then [0] else [])),
            received_out = (if want then Some (arg2 data) else None),
            overrun = False\<rparr>,
           emit (IPC_DATA_WRITE_FINALIZE cid (malloc_ret env) (arg2 data)) s))"
  using accept_rejected [of data K min_size max_size granularity bits cid nullterm want env s]
    accept_nomem [of data K min_size max_size granularity env bits cid nullterm want s]
    accept_finalize_failed [of data K min_size max_size granularity env bits cid nullterm want s]
    accept_ok [of data K min_size max_size granularity env nullterm bits cid want s]
  by blast

theorem async_data_write_accept_cases_witness:
  "\<not> size_rejected 3 1 16 1 \<and> (3::nat) + 1 < 2 ^ 32 \<and>
   async_data_write_accept ipc_h_example 32 (16, zero_call\<lparr>imethod := 8, arg2 := 3\<rparr>) True 1 16 1 True
       \<lparr>malloc_ret = 4096, fresh = (\<lambda>i. 255), finalize_rc = EOK, payload = (\<lambda>i. 65 + i)\<rparr> state_zero
     = (\<lparr>accept_rc = EOK, data_out = Some (4096, [65, 66, 67, 0]), received_out = Some 3, overrun = False\<rparr>,
        state_zero\<lparr>trace := [IPC_DATA_WRITE_FINALIZE 16 4096 3]\<rparr>) \<and>
   size_rejected 3 4 16 1 \<and>
   async_data_write_accept ipc_h_example 32 (16, zero_call\<lparr>imethod := 8, arg2 := 3\<rparr>) True 4 16 1 True
       \<lparr>malloc_ret = 4096, fresh = (\<lambda>i. 255), finalize_rc = EOK, payload = (\<lambda>i. 65 + i)\<rparr> state_zero
     = (accept_fail EINVAL, state_zero\<lparr>trace := [IPC_ANSWER_0 16 EINVAL]\<rparr>) \<and>
   async_data_write_accept ipc_h_example 32 (16, zero_call\<lparr>imethod := 8, arg2 := 3\<rparr>) True 1 16 1 True
       \<lparr>malloc_ret = 0, fresh = (\<lambda>i. 255), finalize_rc = EOK, payload = (\<lambda>i. 65 + i)\<rparr> state_zero
     = (accept_fail ENOMEM, state_zero\<lparr>trace := [IPC_ANSWER_0 16 ENOMEM]\<rparr>) \<and>
   async_data_write_accept ipc_h_example 32 (16, zero_call\<lparr>imethod := 8, arg2 := 3\<rparr>) True 1 16 1 True
       \<lparr>malloc_ret = 4096, fresh = (\<lambda>i. 255), finalize_rc = ELIMIT, payload = (\<lambda>i. 65 + i)\<rparr> state_zero
     = (accept_fail ELIMIT, state_zero\<lparr>trace := [IPC_DATA_WRITE_FINALIZE 16 4096 3, FREE 4096]\<rparr>)"
  using async_data_write_accept_cases [of "zero_call\<lparr>imethod := 8, arg2 := 3\<rparr>" ipc_h_example 1 16 1
      32 16 True True "\<lparr>malloc_ret = 4096, fresh = (\<lambda>i. 255), finalize_rc = EOK, payload = (\<lambda>i. 65 + i)\<rparr>"
      state_zero]
    async_data_write_accept_cases [of "zero_call\<lparr>imethod := 8, arg2 := 3\<rparr>" ipc_h_example 4 16 1
      32 16 True True "\<lparr>malloc_ret = 4096, fresh = (\<lambda>i. 255), finalize_rc = EOK, payload = (\<lambda>i. 65 + i)\<rparr>"
      state_zero]
    async_data_write_accept_cases [of "zero_call\<lparr>imethod := 8, arg2 := 3\<rparr>" ipc_h_example 1 16 1
      32 16 True True "\<lparr>malloc_ret = 0, fresh = (\<lambda>i. 255), finalize_rc = EOK, payload = (\<lambda>i. 65 + i)\<rparr>"
      state_zero]
    async_data_write_accept_cases [of "zero_call\<lparr>imethod := 8, arg2 := 3\<rparr>" ipc_h_example 1 16 1
      32 16 True True "\<lparr>malloc_ret = 4096, fresh = (\<lambda>i. 255), finalize_rc = ELIMIT, payload = (\<lambda>i. 65 + i)\<rparr>"
      state_zero]
  by (simp add: size_rejected_def ipc_h_example_def zero_call_def state_zero_def emit_def
      ipc_answer_0_def free_def upt_conv_Cons)

text \<open>
  The claim as it was stated promises \<open>EOK\<close> whenever the size passes the three tests.
  Here the size passes them and the allocation fails: the function answers and returns
  \<open>ENOMEM\<close>.
\<close>

theorem async_data_write_accept_counterexample:
  "\<not> ((8::nat) < 0 \<or> ((0::nat) > 0 \<and> (8::nat) > 0) \<or> ((0::nat) > 0 \<and> (8::nat) mod 0 \<noteq> 0)) \<and>
   async_data_write_accept ipc_h_example 32 (16, zero_call\<lparr>imethod := 8, arg2 := 8\<rparr>) False 0 0 0 True
       \<lparr>malloc_ret = 0, fresh = (\<lambda>i. 255), finalize_rc = EOK, payload = (\<lambda>i. 65)\<rparr> state_zero
     = (\<lparr>accept_rc = ENOMEM, data_out = None, received_out = None, overrun = False\<rparr>,
        state_zero\<lparr>trace := [IPC_ANSWER_0 16 ENOMEM]\<rparr>)"
  by (simp add: async_data_write_accept_def async_data_write_receive_def accept_fail_def
      ipc_h_example_def zero_call_def state_zero_def emit_def ipc_answer_0_def)

subsection \<open>Waiting with a timeout\<close>

text \<open>
  Claim C4. \<^verbatim>\<open>async_wait_timeout\<close> returns \<open>ETIMEOUT\<close> in two places: at once for a
  negative timeout, and after the fibril switch when it finds the \<^verbatim>\<open>done\<close> flag still
  unset. Both leave the state as it is: no \<^verbatim>\<open>free\<close> is recorded and the message keeps
  its memory, so \<^verbatim>\<open>reply_received\<close> can still write to it. The part up to the switch
  records the futex and the switch only, and links the message's awaiter in the timeout
  list. The message is released in exactly the other two places, where the function
  returns \<open>EOK\<close> after it has read the \<^verbatim>\<open>done\<close> flag as set: before the switch and after
  it.
\<close>

theorem async_wait_timeout_free_only_when_done:
  "(timeout < 0 \<longrightarrow>
      async_wait_timeout msg want timeout now self s = (Returned (ETIMEOUT, None), s)) \<and>
   (0 \<le> timeout \<and> done_flag (amsgs s msg) \<longrightarrow>
      async_wait_timeout msg want timeout now self s
        = (Returned (EOK, if want then Some (retval (amsgs s msg)) else None),
           s\<lparr>trace := trace s @ [FUTEX_DOWN, FUTEX_UP, FREE msg]\<rparr>)) \<and>
   (0 \<le> timeout \<and> \<not> done_flag (amsgs s msg) \<longrightarrow>
      fst (async_wait_timeout msg want timeout now self s) = Suspended \<and>
      trace (snd (async_wait_timeout msg want timeout now self s))
        = trace s @ [FUTEX_DOWN, FIBRIL_SWITCH_TO_MANAGER] \<and>
      Amsg_wdata msg \<in> set (timeout_list (snd (async_wait_timeout msg want timeout now self s)))) \<and>
   (\<not> done_flag (amsgs s msg) \<longrightarrow>
      async_wait_timeout_resume msg want s = ((ETIMEOUT, None), s)) \<and>
   (done_flag (amsgs s msg) \<longrightarrow>
      async_wait_timeout_resume msg want s
        = ((EOK, if want then Some (retval (amsgs s msg)) else None),
           s\<lparr>trace := trace s @ [FREE msg]\<rparr>))"
  by (simp add: async_wait_timeout_def async_wait_timeout_resume_def wait_done_def Let_def
      effect_defs emit_def)

text \<open>
  A run on concrete values: a fibril waits ten microseconds for the message at address 1,
  the timeout expires and wakes it, the wait returns \<open>ETIMEOUT\<close> with no release
  recorded; the reply that arrives afterwards sets the flag in the same message, and a
  second wait returns its status and releases the message.
\<close>

theorem async_wait_timeout_free_only_when_done_witness:
  "(0::int) \<le> 10 \<and> \<not> done_flag (amsgs state_zero 1) \<and>
   fst (async_wait_timeout 1 True 10 100 3 state_zero) = Suspended \<and>
   timeout_list (snd (async_wait_timeout 1 True 10 100 3 state_zero)) = [Amsg_wdata 1] \<and>
   \<not> done_flag (amsgs (handle_expired_timeouts 110 (snd (async_wait_timeout 1 True 10 100 3 state_zero))) 1) \<and>
   async_wait_timeout_resume 1 True
       (handle_expired_timeouts 110 (snd (async_wait_timeout 1 True 10 100 3 state_zero)))
     = ((ETIMEOUT, None), handle_expired_timeouts 110 (snd (async_wait_timeout 1 True 10 100 3 state_zero))) \<and>
   trace (handle_expired_timeouts 110 (snd (async_wait_timeout 1 True 10 100 3 state_zero)))
     = [FUTEX_DOWN, FIBRIL_SWITCH_TO_MANAGER, FUTEX_DOWN, FIBRIL_ADD_READY 3, FUTEX_UP] \<and>
   done_flag (amsgs (reply_received ipc_h_example 1 7 None
       (handle_expired_timeouts 110 (snd (async_wait_timeout 1 True 10 100 3 state_zero)))) 1) \<and>
   async_wait_timeout_resume 1 True (reply_received ipc_h_example 1 7 None
       (handle_expired_timeouts 110 (snd (async_wait_timeout 1 True 10 100 3 state_zero))))
     = ((EOK, Some 7),
        (reply_received ipc_h_example 1 7 None
          (handle_expired_timeouts 110 (snd (async_wait_timeout 1 True 10 100 3 state_zero))))
        \<lparr>trace := [FUTEX_DOWN, FIBRIL_SWITCH_TO_MANAGER, FUTEX_DOWN, FIBRIL_ADD_READY 3, FUTEX_UP,
                    FUTEX_DOWN, FUTEX_UP, FREE 1]\<rparr>) \<and>
   async_wait_timeout 1 True 10 200 3 (reply_received ipc_h_example 1 7 None
       (handle_expired_timeouts 110 (snd (async_wait_timeout 1 True 10 100 3 state_zero))))
     = (Returned (EOK, Some 7),
        (reply_received ipc_h_example 1 7 None
          (handle_expired_timeouts 110 (snd (async_wait_timeout 1 True 10 100 3 state_zero))))
        \<lparr>trace := [FUTEX_DOWN, FIBRIL_SWITCH_TO_MANAGER, FUTEX_DOWN, FIBRIL_ADD_READY 3, FUTEX_UP,
                    FUTEX_DOWN, FUTEX_UP, FUTEX_DOWN, FUTEX_UP, FREE 1]\<rparr>) \<and>
   async_wait_timeout 1 True (- 1) 200 3 (reply_received ipc_h_example 1 7 None
       (handle_expired_timeouts 110 (snd (async_wait_timeout 1 True 10 100 3 state_zero))))
     = (Returned (ETIMEOUT, None),
        reply_received ipc_h_example 1 7 None
          (handle_expired_timeouts 110 (snd (async_wait_timeout 1 True 10 100 3 state_zero))))"
proof -
  define s1 where "s1 = snd (async_wait_timeout 1 True 10 100 3 state_zero)"
  define s2 where "s2 = handle_expired_timeouts 110 s1"
  define s3 where "s3 = reply_received ipc_h_example 1 7 None s2"
  have nd0: "\<not> done_flag (amsgs state_zero 1)"
    by (simp add: state_zero_def amsg_zero_def)
  have a1: "amsgs s1 = (\<lambda>p. amsg_zero)
      (1 := amsg_zero\<lparr>wdata := \<lparr>fid = 3, active = False,
                 to_event = \<lparr>inlist = True, occurred = False, expires = 110\<rparr>\<rparr>\<rparr>)"
    and l1: "timeout_list s1 = [Amsg_wdata 1]"
    and t1: "trace s1 = [FUTEX_DOWN, FIBRIL_SWITCH_TO_MANAGER]"
    by (simp_all add: s1_def async_wait_timeout_def async_insert_timeout_def Let_def state_zero_def
        amsg_zero_def awaiter_zero_def effect_defs set_expires_def set_fid_def set_active_def
        set_occurred_def set_inlist_def tv_add_def fun_eq_iff)
  have a2: "amsgs s2 = (\<lambda>p. amsg_zero)
      (1 := amsg_zero\<lparr>wdata := \<lparr>fid = 3, active = True,
                 to_event = \<lparr>inlist = False, occurred = True, expires = 110\<rparr>\<rparr>\<rparr>)"
    and l2: "timeout_list s2 = []"
    and t2: "trace s2 = [FUTEX_DOWN, FIBRIL_SWITCH_TO_MANAGER, FUTEX_DOWN, FIBRIL_ADD_READY 3, FUTEX_UP]"
    by (simp_all add: s2_def handle_expired_timeouts_def expired_loop.simps Let_def a1 l1 t1
        expires_of_def tv_gt_def amsg_zero_def awaiter_zero_def effect_defs set_active_def
        set_occurred_def set_inlist_def fun_eq_iff)
  have nd2: "\<not> done_flag (amsgs s2 1)" by (simp add: a2 amsg_zero_def)
  have d3: "done_flag (amsgs s3 1)" and r3: "retval (amsgs s3 1) = 7"
    and t3: "trace s3 = [FUTEX_DOWN, FIBRIL_SWITCH_TO_MANAGER, FUTEX_DOWN, FIBRIL_ADD_READY 3, FUTEX_UP,
                    FUTEX_DOWN, FUTEX_UP]"
    by (simp_all add: s3_def reply_received_def Let_def a2 t2 amsg_zero_def effect_defs
        ipcarg_of_int_def ipc_h_example_def)
  from async_wait_timeout_free_only_when_done [of 10 1 True 100 3 state_zero] nd0
  have "fst (async_wait_timeout 1 True 10 100 3 state_zero) = Suspended" by simp
  moreover from async_wait_timeout_free_only_when_done [of 10 1 True 100 3 s2] nd2
  have "async_wait_timeout_resume 1 True s2 = ((ETIMEOUT, None), s2)" by simp
  moreover from async_wait_timeout_free_only_when_done [of 10 1 True 100 3 s3] d3 r3 t3
  have "async_wait_timeout_resume 1 True s3 = ((EOK, Some 7),
      s3\<lparr>trace := [FUTEX_DOWN, FIBRIL_SWITCH_TO_MANAGER, FUTEX_DOWN, FIBRIL_ADD_READY 3, FUTEX_UP,
                    FUTEX_DOWN, FUTEX_UP, FREE 1]\<rparr>)" by simp
  moreover from async_wait_timeout_free_only_when_done [of 10 1 True 200 3 s3] d3 r3 t3
  have "async_wait_timeout 1 True 10 200 3 s3 = (Returned (EOK, Some 7),
      s3\<lparr>trace := [FUTEX_DOWN, FIBRIL_SWITCH_TO_MANAGER, FUTEX_DOWN, FIBRIL_ADD_READY 3, FUTEX_UP,
                    FUTEX_DOWN, FUTEX_UP, FUTEX_DOWN, FUTEX_UP, FREE 1]\<rparr>)" by simp
  moreover from async_wait_timeout_free_only_when_done [of "- 1" 1 True 200 3 s3]
  have "async_wait_timeout 1 True (- 1) 200 3 s3 = (Returned (ETIMEOUT, None), s3)" by simp
  ultimately show ?thesis
    using nd0 l1 nd2 t2 d3 unfolding s3_def s2_def s1_def by simp
qed

subsection \<open>The inbox of a connection is a queue\<close>

lemma upd_wdata_conn_members [simp]:
  "msg_queue (conns (upd_wdata r f s) c) = msg_queue (conns s c)"
  "close_callid (conns (upd_wdata r f s) c) = close_callid (conns s c)"
  "conn_in_phone_hash (conns (upd_wdata r f s) c) = conn_in_phone_hash (conns s c)"
  by (cases r; simp)+

lemma async_insert_timeout_conn_members [simp]:
  "msg_queue (conns (async_insert_timeout r s) c) = msg_queue (conns s c)"
  "close_callid (conns (async_insert_timeout r s) c) = close_callid (conns s c)"
  "conn_in_phone_hash (conns (async_insert_timeout r s) c) = conn_in_phone_hash (conns s c)"
  by (simp_all add: async_insert_timeout_def Let_def)

lemma expired_loop_queue:
  "msg_queue (conns (expired_loop tv s) c) = msg_queue (conns s c)"
proof (induction tv s rule: expired_loop.induct)
  case (1 tv s)
  show ?case
  proof (cases "timeout_list s")
    case Nil
    then show ?thesis by (subst expired_loop.simps) simp
  next
    case (Cons cur rest)
    show ?thesis
    proof (cases "tv_gt (expires_of s cur) tv")
      case True
      with Cons show ?thesis by (subst expired_loop.simps) simp
    next
      case False
      from "1.IH" [OF Cons False refl refl refl refl] Cons False show ?thesis
        by (subst expired_loop.simps) (simp add: Let_def fibril_add_ready_def)
    qed
  qed
qed

lemma handle_expired_timeouts_queue [simp]:
  "msg_queue (conns (handle_expired_timeouts tv s) c) = msg_queue (conns s c)"
  by (simp add: handle_expired_timeouts_def expired_loop_queue effect_defs)

lemma route_call_queue:
  "msg_queue (conns (snd (route_call K cid icall ok s)) c)
     = msg_queue (conns s c) @
       (if fst (route_call K cid icall ok s) \<and> hash_table_find s (in_phone_hash icall) = Some c
        then [\<lparr>callid = cid, call = icall\<rparr>] else [])"
  by (simp add: route_call_def Let_def effect_defs split: option.splits)


lemma hash_table_insert_fields [simp]:
  "conns (hash_table_insert key item s) = conns s"
  "amsgs (hash_table_insert key item s) = amsgs s"
  "timeout_list (hash_table_insert key item s) = timeout_list s"
  "trace (hash_table_insert key item s) = trace s"
  by (simp_all add: hash_table_insert_def)

lemma async_new_connection_queue:
  "c \<noteq> conn \<Longrightarrow>
     msg_queue (conns (snd (async_new_connection h cid ic cf c f s)) conn) = msg_queue (conns s conn)"
  by (simp add: async_new_connection_def Let_def effect_defs split: option.splits)

lemma process_notification_conns [simp]:
  "conns (snd (process_notification cid icall ok f s)) = conns s"
  by (simp add: process_notification_def Let_def effect_defs)

lemma handle_call_queue:
  assumes "\<not> resets_inbox K conn (HANDLE_CALL cid icall env)"
  shows "msg_queue (conns (handle_call K cid icall env s) conn)
           = msg_queue (conns s conn) @ routed K conn (HANDLE_CALL cid icall env) s"
proof (cases "cid AND IPC_CALLID_NOTIFICATION K = 0")
  case False
  then show ?thesis by (simp add: handle_call_def)
next
  case nn: True
  show ?thesis
  proof (cases "imethod icall = IPC_M_CONNECT_ME K \<or> imethod icall = IPC_M_CONNECT_ME_TO K")
    case True
    with nn assms have "conn_ret env \<noteq> conn" by auto
    with nn True show ?thesis
      by (auto simp add: handle_call_def async_new_connection_queue)
  next
    case False
    obtain b s1 where r: "route_call K cid icall (msg_ok env) s = (b, s1)"
      by (cases "route_call K cid icall (msg_ok env) s")
    from route_call_queue [of K cid icall "msg_ok env" s conn] r
    have "msg_queue (conns s1 conn)
            = msg_queue (conns s conn) @
              (if b \<and> hash_table_find s (in_phone_hash icall) = Some conn
               then [\<lparr>callid = cid, call = icall\<rparr>] else [])"
      by simp
    with nn False r show ?thesis
      by (cases b) (simp_all add: handle_call_def ipc_answer_0_def)
  qed
qed

lemma get_call_loop_other:
  "c \<noteq> conn \<Longrightarrow>
     msg_queue (conns (snd (get_call_loop K c usecs s)) conn) = msg_queue (conns s conn)"
  by (simp add: get_call_loop_def Let_def effect_defs split: list.splits)

lemma get_call_loop_empty:
  "msg_queue (conns s conn) = [] \<Longrightarrow>
     msg_queue (conns (snd (get_call_loop K conn usecs s)) conn) = []"
  by (simp add: get_call_loop_def Let_def effect_defs)

lemma get_call_loop_take:
  "msg_queue (conns s conn) = m # rest \<Longrightarrow>
     get_call_loop K conn usecs s
       = (Returned (as_pair m), futex_up (free_msg m (upd_conn conn (\<lambda>c. c\<lparr>msg_queue := rest\<rparr>) s)))"
  by (simp add: get_call_loop_def Let_def as_pair_def)

lemma snd_step [simp]:
  "snd (step K (HANDLE_CALL cid icall env) s) = handle_call K cid icall env s"
  "snd (step K (NEW_CONNECTION hash cid ic cfib conn new_fid) s)
     = snd (async_new_connection hash cid ic cfib conn new_fid s)"
  "snd (step K (EXPIRED_TIMEOUTS tv) s) = handle_expired_timeouts tv s"
  "snd (step K (GET_CALL conn usecs now) s) = snd (async_get_call_timeout K conn usecs now s)"
  "snd (step K (GET_CALL_RESUME conn usecs) s) = snd (async_get_call_timeout_resume K conn usecs s)"
  "snd (step K (CONNECTION_EXIT conn) s)
     = (case connection_fibril_exit conn s of Inl (f, s1) \<Rightarrow> s1 | Inr s1 \<Rightarrow> s1)"
  "snd (step K (SEND_FAST phoneid meth a1 a2 a3 a4 dptr msg) s)
     = snd (async_send_fast phoneid meth a1 a2 a3 a4 dptr msg s)"
  "snd (step K (SEND_SLOW phoneid meth a1 a2 a3 a4 a5 dptr msg) s)
     = snd (async_send_slow phoneid meth a1 a2 a3 a4 a5 dptr msg s)"
  "snd (step K (REPLY_RECEIVED msg rv data) s) = reply_received K msg rv data s"
  "snd (step K (WAIT_FOR msg want self) s) = snd (async_wait_for msg want self s)"
  "snd (step K (WAIT_FOR_RESUME msg want) s) = snd (async_wait_for_resume msg want s)"
  "snd (step K (WAIT_TIMEOUT msg want timeout now self) s)
     = snd (async_wait_timeout msg want timeout now self s)"
  "snd (step K (WAIT_TIMEOUT_RESUME msg want) s) = snd (async_wait_timeout_resume msg want s)"
  "snd (step K (USLEEP timeout msg now self) s) = snd (async_usleep timeout msg now self s)"
  "snd (step K (USLEEP_RESUME msg) s) = async_usleep_resume msg s"
  by (simp_all split: prod.splits sum.splits)

lemma fst_step_get_call [simp]:
  "fst (step K (GET_CALL conn usecs now) s) = GOT_CALL (fst (async_get_call_timeout K conn usecs now s))"
  "fst (step K (GET_CALL_RESUME conn usecs) s) = GOT_CALL (fst (async_get_call_timeout_resume K conn usecs s))"
  by (simp_all split: prod.splits)

declare step.simps [simp del]

lemma step_inbox:
  assumes "\<not> resets_inbox K conn ev"
  shows "taken K conn ev s @ map as_pair (msg_queue (conns (snd (step K ev s)) conn))
           = map as_pair (msg_queue (conns s conn) @ routed K conn ev s)"
proof (cases ev)
  case (HANDLE_CALL cid icall env)
  with assms handle_call_queue [of K conn cid icall env s] show ?thesis
    by simp
next
  case (NEW_CONNECTION h cid ic cf c f)
  with assms have "c \<noteq> conn" by simp
  from async_new_connection_queue [OF this, of h cid ic cf f s] NEW_CONNECTION show ?thesis
    by (simp)
next
  case (EXPIRED_TIMEOUTS tv)
  then show ?thesis by simp
next
  case (GET_CALL c usecs now)
  show ?thesis
  proof (cases "c = conn")
    case False
    with GET_CALL show ?thesis
      by (simp add: async_get_call_timeout_def Let_def get_call_loop_other futex_down_def)
  next
    case True
    show ?thesis
    proof (cases "msg_queue (conns s conn)")
      case Nil
      with GET_CALL True show ?thesis
        by (simp add: async_get_call_timeout_def Let_def get_call_loop_empty futex_down_def)
    next
      case (Cons m rest)
      with GET_CALL True show ?thesis
        by (simp add: async_get_call_timeout_def Let_def get_call_loop_take effect_defs)
    qed
  qed
next
  case (GET_CALL_RESUME c usecs)
  show ?thesis
  proof (cases "c = conn")
    case False
    with GET_CALL_RESUME show ?thesis
      by (simp add: async_get_call_timeout_resume_def Let_def get_call_loop_other effect_defs)
  next
    case True
    show ?thesis
    proof (cases "msg_queue (conns s conn)")
      case Nil
      with GET_CALL_RESUME True show ?thesis
        by (simp add: async_get_call_timeout_resume_def Let_def get_call_loop_empty effect_defs)
    next
      case (Cons m rest)
      with GET_CALL_RESUME True show ?thesis
        by (simp add: async_get_call_timeout_resume_def Let_def get_call_loop_take effect_defs)
    qed
  qed
next
  case (CONNECTION_EXIT c)
  with assms have "c \<noteq> conn" by simp
  with CONNECTION_EXIT show ?thesis
    by (simp add: connection_fibril_exit_def Let_def hangup_loop_conn effect_defs)
next
  case (SEND_FAST phoneid meth a1 a2 a3 a4 dptr msg)
  then show ?thesis by (simp add: async_send_fast_def Let_def)
next
  case (SEND_SLOW phoneid meth a1 a2 a3 a4 a5 dptr msg)
  then show ?thesis by (simp add: async_send_slow_def Let_def)
next
  case (REPLY_RECEIVED msg rv data)
  then show ?thesis by (simp add: reply_received_def Let_def effect_defs split: option.splits)
next
  case (WAIT_FOR msg want self)
  then show ?thesis by (simp add: async_wait_for_def wait_done_def Let_def effect_defs)
next
  case (WAIT_FOR_RESUME msg want)
  then show ?thesis by (simp add: async_wait_for_resume_def wait_done_def effect_defs)
next
  case (WAIT_TIMEOUT msg want timeout now self)
  then show ?thesis by (simp add: async_wait_timeout_def wait_done_def Let_def effect_defs)
next
  case (WAIT_TIMEOUT_RESUME msg want)
  then show ?thesis by (simp add: async_wait_timeout_resume_def wait_done_def effect_defs)
next
  case (USLEEP timeout msg now self)
  then show ?thesis by (simp add: async_usleep_def Let_def effect_defs)
next
  case (USLEEP_RESUME msg)
  then show ?thesis by (simp add: async_usleep_resume_def effect_defs)
qed


lemma returned_empty_inbox:
  assumes "reads_inbox conn ev" and "msg_queue (conns s conn) = []"
  shows "set (returned K conn ev s)
           \<subseteq> {(0, None),
               (close_callid (conns s conn), Some (zero_call\<lparr>imethod := IPC_M_PHONE_HUNGUP K\<rparr>))}"
proof (cases ev)
  case (GET_CALL c usecs now)
  with assms show ?thesis
    by (simp add: async_get_call_timeout_def get_call_loop_def Let_def effect_defs)
next
  case (GET_CALL_RESUME c usecs)
  with assms show ?thesis
    by (simp add: async_get_call_timeout_resume_def get_call_loop_def Let_def effect_defs)
qed (use assms in simp_all)

text \<open>
  Claim C1, as amended. Take any execution in which the connection structure at \<open>conn\<close>
  is neither set up anew nor given up. The pairs returned by the calls of
  \<^verbatim>\<open>async_get_call_timeout\<close> on \<open>conn\<close> that find a message in the inbox, followed by the
  messages left in the inbox at the end, are the messages that were in the inbox at the
  start followed by the calls that \<^verbatim>\<open>route_call\<close> accepted for \<open>conn\<close>, in the same
  order. A call of \<^verbatim>\<open>async_get_call_timeout\<close> that finds the inbox empty returns no
  routed call: it suspends the fibril, or returns zero without storing a call (the
  timeout), or returns \<^verbatim>\<open>close_callid\<close> with the synthesized hangup record.
\<close>

theorem inbox_fifo:
  assumes "\<forall>ev \<in> set evs. \<not> resets_inbox K conn ev"
  shows "all_taken K conn evs s @ map as_pair (msg_queue (conns (run K evs s) conn))
           = map as_pair (msg_queue (conns s conn)) @ map as_pair (all_routed K conn evs s) \<and>
         (reads_inbox conn ev' \<and> msg_queue (conns s' conn) = [] \<longrightarrow>
            set (returned K conn ev' s')
              \<subseteq> {(0, None),
                  (close_callid (conns s' conn), Some (zero_call\<lparr>imethod := IPC_M_PHONE_HUNGUP K\<rparr>))})"
proof
  show "all_taken K conn evs s @ map as_pair (msg_queue (conns (run K evs s) conn))
           = map as_pair (msg_queue (conns s conn)) @ map as_pair (all_routed K conn evs s)"
    using assms
  proof (induction evs arbitrary: s)
    case Nil
    then show ?case by simp
  next
    case (Cons ev evs)
    from Cons.prems have nr: "\<not> resets_inbox K conn ev"
      and rest: "\<forall>e \<in> set evs. \<not> resets_inbox K conn e" by simp_all
    have "all_taken K conn (ev # evs) s @ map as_pair (msg_queue (conns (run K (ev # evs) s) conn))
        = taken K conn ev s @
          (all_taken K conn evs (snd (step K ev s)) @
           map as_pair (msg_queue (conns (run K evs (snd (step K ev s))) conn)))"
      by simp
    also have "\<dots> = taken K conn ev s @
          (map as_pair (msg_queue (conns (snd (step K ev s)) conn)) @
           map as_pair (all_routed K conn evs (snd (step K ev s))))"
      using Cons.IH [OF rest] by simp
    also have "\<dots> = map as_pair (msg_queue (conns s conn) @ routed K conn ev s) @
           map as_pair (all_routed K conn evs (snd (step K ev s)))"
      using step_inbox [OF nr, of s] by (simp del: taken.simps routed.simps)
    finally show ?case by simp
  qed
next
  show "reads_inbox conn ev' \<and> msg_queue (conns s' conn) = [] \<longrightarrow>
            set (returned K conn ev' s')
              \<subseteq> {(0, None),
                  (close_callid (conns s' conn), Some (zero_call\<lparr>imethod := IPC_M_PHONE_HUNGUP K\<rparr>))}"
    using returned_empty_inbox [of conn ev' s' K] by blast
qed


theorem inbox_fifo_witness:
  "all_routed ipc_h_example 1
       [HANDLE_CALL 16 (user_call 1) env_ok, HANDLE_CALL 24 (user_call 2) env_ok, GET_CALL 1 0 100,
        HANDLE_CALL 32 (user_call 3) env_ok, GET_CALL 1 0 200, GET_CALL 1 0 300] state_idle_conn
     = [\<lparr>callid = 16, call = user_call 1\<rparr>, \<lparr>callid = 24, call = user_call 2\<rparr>,
        \<lparr>callid = 32, call = user_call 3\<rparr>] \<and>
   all_taken ipc_h_example 1
       [HANDLE_CALL 16 (user_call 1) env_ok, HANDLE_CALL 24 (user_call 2) env_ok, GET_CALL 1 0 100,
        HANDLE_CALL 32 (user_call 3) env_ok, GET_CALL 1 0 200, GET_CALL 1 0 300] state_idle_conn
     = [(16, Some (user_call 1)), (24, Some (user_call 2)), (32, Some (user_call 3))] \<and>
   msg_queue (conns (run ipc_h_example
       [HANDLE_CALL 16 (user_call 1) env_ok, HANDLE_CALL 24 (user_call 2) env_ok, GET_CALL 1 0 100,
        HANDLE_CALL 32 (user_call 3) env_ok, GET_CALL 1 0 200, GET_CALL 1 0 300] state_idle_conn) 1) = [] \<and>
   reads_inbox 1 (GET_CALL_RESUME 1 50) \<and>
   msg_queue (conns (run ipc_h_example [GET_CALL 1 50 100, EXPIRED_TIMEOUTS 150] state_idle_conn) 1) = [] \<and>
   returned ipc_h_example 1 (GET_CALL_RESUME 1 50)
       (run ipc_h_example [GET_CALL 1 50 100, EXPIRED_TIMEOUTS 150] state_idle_conn) = [(0, None)] \<and>
   set (returned ipc_h_example 1 (GET_CALL_RESUME 1 50)
       (run ipc_h_example [GET_CALL 1 50 100, EXPIRED_TIMEOUTS 150] state_idle_conn))
     \<subseteq> {(0, None),
         (close_callid (conns (run ipc_h_example [GET_CALL 1 50 100, EXPIRED_TIMEOUTS 150] state_idle_conn) 1),
          Some (zero_call\<lparr>imethod := IPC_M_PHONE_HUNGUP ipc_h_example\<rparr>))}"
proof -
  let ?evs = "[HANDLE_CALL 16 (user_call 1) env_ok, HANDLE_CALL 24 (user_call 2) env_ok, GET_CALL 1 0 100,
        HANDLE_CALL 32 (user_call 3) env_ok, GET_CALL 1 0 200, GET_CALL 1 0 300]"
  have h: "\<forall>ev \<in> set ?evs. \<not> resets_inbox ipc_h_example 1 ev"
    by (simp add: ipc_h_example_def user_call_def zero_call_def)
  have r: "all_routed ipc_h_example 1 ?evs state_idle_conn
     = [\<lparr>callid = 16, call = user_call 1\<rparr>, \<lparr>callid = 24, call = user_call 2\<rparr>,
        \<lparr>callid = 32, call = user_call 3\<rparr>]"
    by code_simp
  have t: "all_taken ipc_h_example 1 ?evs state_idle_conn
     = [(16, Some (user_call 1)), (24, Some (user_call 2)), (32, Some (user_call 3))]"
    by code_simp
  have q: "msg_queue (conns state_idle_conn 1) = []"
    by (simp add: state_idle_conn_def state_zero_def conn_zero_def)
  from inbox_fifo [OF h, of state_idle_conn]
  have "all_taken ipc_h_example 1 ?evs state_idle_conn @
          map as_pair (msg_queue (conns (run ipc_h_example ?evs state_idle_conn) 1))
        = map as_pair (msg_queue (conns state_idle_conn 1)) @
          map as_pair (all_routed ipc_h_example 1 ?evs state_idle_conn)"
    by (rule conjunct1)
  then have e: "msg_queue (conns (run ipc_h_example ?evs state_idle_conn) 1) = []"
    unfolding r t q by (simp add: as_pair_def)
  let ?x = "run ipc_h_example [GET_CALL 1 50 100, EXPIRED_TIMEOUTS 150] state_idle_conn"
  have ri: "reads_inbox 1 (GET_CALL_RESUME 1 50)" by simp
  have qx: "msg_queue (conns ?x 1) = []" by code_simp
  have rx: "returned ipc_h_example 1 (GET_CALL_RESUME 1 50) ?x = [(0, None)]" by code_simp
  from inbox_fifo [OF h, of state_idle_conn "GET_CALL_RESUME 1 50" ?x] ri qx
  have "set (returned ipc_h_example 1 (GET_CALL_RESUME 1 50) ?x)
     \<subseteq> {(0, None),
         (close_callid (conns ?x 1), Some (zero_call\<lparr>imethod := IPC_M_PHONE_HUNGUP ipc_h_example\<rparr>))}"
    by blast
  with r t e ri qx rx show ?thesis by blast
qed

text \<open>
  The claim as it was stated equates everything the calls return with what was routed.
  Here one call, the hangup of the phone, is routed to the connection; the fibril reads
  it and then calls once more, as the comment in \<^verbatim>\<open>async_get_call_timeout\<close> foresees:
  the second call returns the hangup's identifier again, with a synthesized record.
\<close>

theorem inbox_fifo_counterexample:
  "all_routed ipc_h_example 1
       [HANDLE_CALL 16 hangup_call env_ok, GET_CALL 1 0 100, GET_CALL 1 0 200] state_idle_conn
     = [\<lparr>callid = 16, call = hangup_call\<rparr>] \<and>
   all_returned ipc_h_example 1
       [HANDLE_CALL 16 hangup_call env_ok, GET_CALL 1 0 100, GET_CALL 1 0 200] state_idle_conn
     = [(16, Some hangup_call), (16, Some (zero_call\<lparr>imethod := 5\<rparr>))] \<and>
   all_returned ipc_h_example 1
       [HANDLE_CALL 16 hangup_call env_ok, GET_CALL 1 0 100, GET_CALL 1 0 200] state_idle_conn
     \<noteq> map as_pair (all_routed ipc_h_example 1
       [HANDLE_CALL 16 hangup_call env_ok, GET_CALL 1 0 100, GET_CALL 1 0 200] state_idle_conn)"
proof -
  let ?evs = "[HANDLE_CALL 16 hangup_call env_ok, GET_CALL 1 0 100, GET_CALL 1 0 200]"
  have r: "all_routed ipc_h_example 1 ?evs state_idle_conn = [\<lparr>callid = 16, call = hangup_call\<rparr>]"
    by code_simp
  have t: "all_returned ipc_h_example 1 ?evs state_idle_conn
     = [(16, Some hangup_call), (16, Some (zero_call\<lparr>imethod := 5\<rparr>))]"
    by code_simp
  from r t show ?thesis by simp
qed

subsection \<open>The reply to an outbound message\<close>

lemma upd_wdata_amsg_members [simp]:
  "done_flag (amsgs (upd_wdata r f s) m) = done_flag (amsgs s m)"
  "retval (amsgs (upd_wdata r f s) m) = retval (amsgs s m)"
  "dataptr (amsgs (upd_wdata r f s) m) = dataptr (amsgs s m)"
  by (cases r; simp)+

lemma async_insert_timeout_amsg_members [simp]:
  "done_flag (amsgs (async_insert_timeout r s) m) = done_flag (amsgs s m)"
  "retval (amsgs (async_insert_timeout r s) m) = retval (amsgs s m)"
  by (simp_all add: async_insert_timeout_def Let_def)

lemma expired_loop_amsg_members:
  "done_flag (amsgs (expired_loop tv s) m) = done_flag (amsgs s m) \<and>
   retval (amsgs (expired_loop tv s) m) = retval (amsgs s m)"
proof (induction tv s rule: expired_loop.induct)
  case (1 tv s)
  show ?case
  proof (cases "timeout_list s")
    case Nil
    then show ?thesis by (subst (1 2) expired_loop.simps) simp
  next
    case (Cons cur rest)
    show ?thesis
    proof (cases "tv_gt (expires_of s cur) tv")
      case True
      with Cons show ?thesis by (subst (1 2) expired_loop.simps) simp
    next
      case False
      from "1.IH" [OF Cons False refl refl refl refl] Cons False show ?thesis
        by (subst (1 2) expired_loop.simps) (simp add: Let_def fibril_add_ready_def)
    qed
  qed
qed

lemma handle_expired_timeouts_amsg_members [simp]:
  "done_flag (amsgs (handle_expired_timeouts tv s) m) = done_flag (amsgs s m)"
  "retval (amsgs (handle_expired_timeouts tv s) m) = retval (amsgs s m)"
  by (simp_all add: handle_expired_timeouts_def expired_loop_amsg_members effect_defs)

lemma hangup_loop_amsgs [simp]: "amsgs (hangup_loop conn s) = amsgs s"
proof (induction conn s rule: hangup_loop.induct)
  case (1 conn s)
  show ?case
  proof (cases "msg_queue (conns s conn)")
    case Nil
    then show ?thesis by (subst hangup_loop.simps) simp
  next
    case (Cons msg rest)
    with "1.IH" [OF Cons] show ?thesis
      by (subst hangup_loop.simps) (simp add: ipc_answer_0_def free_msg_def)
  qed
qed

lemma handle_call_amsg_members [simp]:
  "done_flag (amsgs (handle_call K cid icall env s) m) = done_flag (amsgs s m)"
  "retval (amsgs (handle_call K cid icall env s) m) = retval (amsgs s m)"
  by (simp_all add: handle_call_def process_notification_def async_new_connection_def route_call_def
      Let_def effect_defs split: prod.splits option.splits bool.splits)

lemma step_done_flag:
  assumes "\<not> creates_amsg msg ev"
  shows "done_flag (amsgs (snd (step K ev s)) msg) = (done_flag (amsgs s msg) \<or> is_reply msg ev)"
proof (cases ev)
  case (REPLY_RECEIVED m rv data)
  then show ?thesis
    by (simp add: reply_received_def Let_def effect_defs split: option.splits)
next
  case (SEND_FAST phoneid meth a1 a2 a3 a4 dptr m)
  with assms show ?thesis by (simp add: async_send_fast_def Let_def)
next
  case (SEND_SLOW phoneid meth a1 a2 a3 a4 a5 dptr m)
  with assms show ?thesis by (simp add: async_send_slow_def Let_def)
qed (simp_all add: async_new_connection_def async_get_call_timeout_def
      async_get_call_timeout_resume_def get_call_loop_def connection_fibril_exit_def
      async_wait_for_def async_wait_for_resume_def wait_done_def async_wait_timeout_def
      async_wait_timeout_resume_def async_usleep_def async_usleep_resume_def
      Let_def effect_defs split: option.splits list.splits)

lemma step_retval:
  "retval (amsgs (snd (step K ev s)) msg)
     = (case ev of
          REPLY_RECEIVED m rv data \<Rightarrow> if m = msg then ipcarg_of_int K rv else retval (amsgs s msg)
        | _ \<Rightarrow> retval (amsgs s msg))"
proof (cases ev)
  case (REPLY_RECEIVED m rv data)
  then show ?thesis
    by (simp add: reply_received_def Let_def effect_defs split: option.splits)
qed (simp_all add: async_new_connection_def async_get_call_timeout_def
      async_get_call_timeout_resume_def get_call_loop_def connection_fibril_exit_def
      async_send_fast_def async_send_slow_def
      async_wait_for_def async_wait_for_resume_def wait_done_def async_wait_timeout_def
      async_wait_timeout_resume_def async_usleep_def async_usleep_resume_def
      Let_def effect_defs split: option.splits list.splits)


lemma run_done_flag:
  assumes "\<forall>ev \<in> set evs. \<not> creates_amsg msg ev"
  shows "done_flag (amsgs (run K evs s) msg) = (done_flag (amsgs s msg) \<or> (\<exists>ev \<in> set evs. is_reply msg ev))"
  using assms
proof (induction evs arbitrary: s)
  case Nil
  then show ?case by simp
next
  case (Cons ev evs)
  then have "\<not> creates_amsg msg ev" and "\<forall>e \<in> set evs. \<not> creates_amsg msg e" by simp_all
  with Cons.IH [of "snd (step K ev s)"] step_done_flag [of msg ev K s] show ?case
    by auto
qed

lemma done_changes_when_set:
  assumes "\<forall>ev \<in> set evs. \<not> creates_amsg msg ev" and "done_flag (amsgs s msg)"
  shows "done_changes K msg evs s = []"
  using assms
proof (induction evs arbitrary: s)
  case Nil
  then show ?case by simp
next
  case (Cons ev evs)
  then have nc: "\<not> creates_amsg msg ev" and rest: "\<forall>e \<in> set evs. \<not> creates_amsg msg e" by simp_all
  from step_done_flag [OF nc, of K s] Cons.prems(2)
  have d: "done_flag (amsgs (snd (step K ev s)) msg)" by simp
  from Cons.IH [OF rest d] d Cons.prems(2) show ?case by simp
qed

lemma done_changes_once:
  assumes "\<forall>ev \<in> set evs. \<not> creates_amsg msg ev" and "\<not> done_flag (amsgs s msg)"
  shows "done_changes K msg evs s = map (\<lambda>ev. (ev, False, True)) (take 1 (filter (is_reply msg) evs))"
  using assms
proof (induction evs arbitrary: s)
  case Nil
  then show ?case by simp
next
  case (Cons ev evs)
  then have nc: "\<not> creates_amsg msg ev" and rest: "\<forall>e \<in> set evs. \<not> creates_amsg msg e" by simp_all
  show ?case
  proof (cases "is_reply msg ev")
    case True
    with step_done_flag [OF nc, of K s] have d: "done_flag (amsgs (snd (step K ev s)) msg)" by simp
    from done_changes_when_set [OF rest d] d True Cons.prems(2) show ?thesis by simp
  next
    case False
    with step_done_flag [OF nc, of K s] Cons.prems(2)
    have d: "\<not> done_flag (amsgs (snd (step K ev s)) msg)" by simp
    from Cons.IH [OF rest d] d False Cons.prems(2) show ?thesis by simp
  qed
qed

lemma last_status_some:
  "(\<exists>ev \<in> set evs. is_reply msg ev) \<Longrightarrow> \<exists>rv. last_status msg evs = Some rv"
proof (induction evs)
  case Nil
  then show ?case by simp
next
  case (Cons ev evs)
  show ?case
  proof (cases "last_status msg evs")
    case (Some rv)
    then show ?thesis by simp
  next
    case None
    with Cons have "is_reply msg ev" by auto
    then show ?thesis using None by (cases ev) simp_all
  qed
qed

lemma run_retval:
  "retval (amsgs (run K evs s) msg)
     = (case last_status msg evs of Some rv \<Rightarrow> ipcarg_of_int K rv | None \<Rightarrow> retval (amsgs s msg))"
proof (induction evs arbitrary: s)
  case Nil
  then show ?case by simp
next
  case (Cons ev evs)
  show ?case
  proof (cases "last_status msg evs")
    case (Some rv)
    with Cons [of "snd (step K ev s)"] show ?thesis by simp
  next
    case None
    with Cons [of "snd (step K ev s)"] step_retval [of K ev s msg] show ?thesis
      by (cases ev) (simp_all split: if_splits)
  qed
qed

lemma send_not_done:
  "msg \<noteq> 0 \<Longrightarrow> \<not> done_flag (amsgs (snd (async_send_fast phoneid meth a1 a2 a3 a4 dptr msg s)) msg)"
  "msg \<noteq> 0 \<Longrightarrow> \<not> done_flag (amsgs (snd (async_send_slow phoneid meth a1 a2 a3 a4 a5 dptr msg s)) msg)"
  by (simp_all add: async_send_fast_def async_send_slow_def Let_def)

lemma ipcarg_of_int_range:
  "0 \<le> v \<Longrightarrow> v < 2 ^ ipcarg_bits K \<Longrightarrow> int (ipcarg_of_int K v) = v"
  "- (2 ^ ipcarg_bits K) \<le> v \<Longrightarrow> v < 0 \<Longrightarrow> int (ipcarg_of_int K v) = v + 2 ^ ipcarg_bits K"
proof -
  show "int (ipcarg_of_int K v) = v" if "0 \<le> v" and "v < 2 ^ ipcarg_bits K"
    using that by (simp add: ipcarg_of_int_def)
  show "int (ipcarg_of_int K v) = v + 2 ^ ipcarg_bits K"
    if "- (2 ^ ipcarg_bits K) \<le> v" and "v < 0"
  proof -
    have "v mod 2 ^ ipcarg_bits K = (v + 2 ^ ipcarg_bits K) mod 2 ^ ipcarg_bits K" by simp
    also from that have "\<dots> = v + 2 ^ ipcarg_bits K" by (intro mod_pos_pos_trivial) simp_all
    finally show ?thesis using that by (simp add: ipcarg_of_int_def)
  qed
qed

text \<open>
  Claim C2. \<^verbatim>\<open>async_send_fast\<close> and \<^verbatim>\<open>async_send_slow\<close> set a message up with its
  \<^verbatim>\<open>done\<close> flag false. In any execution that does not set the message up anew, the flag
  changes at one step only, the first run of the reply callback \<^verbatim>\<open>reply_received\<close> for
  this message, and there from false to true: exactly once when the callback runs, never
  when it does not. Once the callback has run, \<^verbatim>\<open>async_wait_for\<close> returns at once, and a
  fibril that had been suspended in \<^verbatim>\<open>async_wait_for\<close> continues; both store through
  \<^verbatim>\<open>retval\<close> (when it is given) what the callback wrote to \<^verbatim>\<open>msg->retval\<close>: the status
  that the callback was given, converted from \<^verbatim>\<open>int\<close> to \<^verbatim>\<open>ipcarg_t\<close>. That is the
  status itself when it is not negative, and the status plus \<open>2 ^ ipcarg_bits\<close> when it is
  negative, as every error code is. Before the callback has run, \<^verbatim>\<open>async_wait_for\<close>
  suspends the fibril.
\<close>

theorem amsg_done_once:
  assumes "\<forall>ev \<in> set evs. \<not> creates_amsg msg ev"
  shows "(msg \<noteq> 0 \<longrightarrow>
            \<not> done_flag (amsgs (snd (async_send_fast phoneid meth a1 a2 a3 a4 dptr msg s0)) msg) \<and>
            \<not> done_flag (amsgs (snd (async_send_slow phoneid meth a1 a2 a3 a4 a5 dptr msg s0)) msg)) \<and>
         (\<not> done_flag (amsgs s msg) \<longrightarrow>
            done_changes K msg evs s
              = map (\<lambda>ev. (ev, False, True)) (take 1 (filter (is_reply msg) evs))) \<and>
         (\<not> done_flag (amsgs s msg) \<and> (\<exists>ev \<in> set evs. is_reply msg ev) \<longrightarrow>
            length (done_changes K msg evs s) = 1) \<and>
         ((\<exists>ev \<in> set evs. is_reply msg ev) \<longrightarrow>
            done_flag (amsgs (run K evs s) msg) \<and>
            retval (amsgs (run K evs s) msg) = ipcarg_of_int K (the (last_status msg evs)) \<and>
            fst (async_wait_for msg want self (run K evs s))
              = Returned (if want then map_option (ipcarg_of_int K) (last_status msg evs) else None) \<and>
            fst (async_wait_for_resume msg want (run K evs s))
              = (if want then map_option (ipcarg_of_int K) (last_status msg evs) else None)) \<and>
         (\<not> done_flag (amsgs s msg) \<and> \<not> (\<exists>ev \<in> set evs. is_reply msg ev) \<longrightarrow>
            \<not> done_flag (amsgs (run K evs s) msg) \<and>
            fst (async_wait_for msg want self (run K evs s)) = Suspended) \<and>
         (0 \<le> st \<and> st < 2 ^ ipcarg_bits K \<longrightarrow> int (ipcarg_of_int K st) = st) \<and>
         (- (2 ^ ipcarg_bits K) \<le> st \<and> st < 0 \<longrightarrow>
            int (ipcarg_of_int K st) = st + 2 ^ ipcarg_bits K)"
proof (intro conjI impI)
  assume "msg \<noteq> 0"
  then show "\<not> done_flag (amsgs (snd (async_send_fast phoneid meth a1 a2 a3 a4 dptr msg s0)) msg)"
    and "\<not> done_flag (amsgs (snd (async_send_slow phoneid meth a1 a2 a3 a4 a5 dptr msg s0)) msg)"
    by (rule send_not_done)+
next
  assume "\<not> done_flag (amsgs s msg)"
  with assms show "done_changes K msg evs s
      = map (\<lambda>ev. (ev, False, True)) (take 1 (filter (is_reply msg) evs))"
    by (rule done_changes_once)
next
  assume a: "\<not> done_flag (amsgs s msg) \<and> (\<exists>ev \<in> set evs. is_reply msg ev)"
  then have "filter (is_reply msg) evs \<noteq> []" by (simp add: filter_empty_conv)
  then have "length (take 1 (filter (is_reply msg) evs)) = 1"
    by (cases "filter (is_reply msg) evs") simp_all
  with done_changes_once [OF assms, of s K] a show "length (done_changes K msg evs s) = 1"
    by simp
next
  assume r: "\<exists>ev \<in> set evs. is_reply msg ev"
  with run_done_flag [OF assms, of K s] show d: "done_flag (amsgs (run K evs s) msg)" by simp
  from last_status_some [OF r] obtain rv where l: "last_status msg evs = Some rv" ..
  with run_retval [of K evs s msg]
  have rv: "retval (amsgs (run K evs s) msg) = ipcarg_of_int K rv" by simp
  with l show "retval (amsgs (run K evs s) msg) = ipcarg_of_int K (the (last_status msg evs))"
    by simp
  from d rv l show "fst (async_wait_for msg want self (run K evs s))
      = Returned (if want then map_option (ipcarg_of_int K) (last_status msg evs) else None)"
    by (simp add: async_wait_for_def wait_done_def Let_def effect_defs)
  from rv l show "fst (async_wait_for_resume msg want (run K evs s))
      = (if want then map_option (ipcarg_of_int K) (last_status msg evs) else None)"
    by (simp add: async_wait_for_resume_def wait_done_def)
next
  assume a: "\<not> done_flag (amsgs s msg) \<and> \<not> (\<exists>ev \<in> set evs. is_reply msg ev)"
  with run_done_flag [OF assms, of K s] show nd: "\<not> done_flag (amsgs (run K evs s) msg)" by simp
  then show "fst (async_wait_for msg want self (run K evs s)) = Suspended"
    by (simp add: async_wait_for_def Let_def effect_defs)
next
  assume "0 \<le> st \<and> st < 2 ^ ipcarg_bits K"
  then show "int (ipcarg_of_int K st) = st" by (simp add: ipcarg_of_int_range)
next
  assume "- (2 ^ ipcarg_bits K) \<le> st \<and> st < 0"
  then show "int (ipcarg_of_int K st) = st + 2 ^ ipcarg_bits K" by (simp add: ipcarg_of_int_range)
qed

text \<open>
  An execution on concrete values, with a word of 64 bits: the message at address 2 is
  sent, a fibril waits for it, and the reply arrives. With the status 42 the wait stores
  42; with the status \<open>- 7\<close> it stores \<open>2 ^ 64 - 7\<close>.
\<close>

theorem amsg_done_once_witness:
  "\<not> done_flag (amsgs (snd (async_send_fast 1 1024 0 0 0 0 0 2 state_zero)) 2) \<and>
   \<not> done_flag (amsgs (snd (async_send_slow 1 1024 0 0 0 0 0 0 2 state_zero)) 2) \<and>
   done_changes ipc_h_example 2 [WAIT_FOR 2 True 9, EXPIRED_TIMEOUTS 5, REPLY_RECEIVED 2 42 None]
       (snd (async_send_fast 1 1024 0 0 0 0 0 2 state_zero))
     = [(REPLY_RECEIVED 2 42 None, False, True)] \<and>
   length (done_changes ipc_h_example 2 [WAIT_FOR 2 True 9, EXPIRED_TIMEOUTS 5, REPLY_RECEIVED 2 42 None]
       (snd (async_send_fast 1 1024 0 0 0 0 0 2 state_zero))) = 1 \<and>
   done_flag (amsgs (run ipc_h_example [WAIT_FOR 2 True 9, EXPIRED_TIMEOUTS 5, REPLY_RECEIVED 2 42 None]
       (snd (async_send_fast 1 1024 0 0 0 0 0 2 state_zero))) 2) \<and>
   fst (async_wait_for_resume 2 True
       (run ipc_h_example [WAIT_FOR 2 True 9, EXPIRED_TIMEOUTS 5, REPLY_RECEIVED 2 42 None]
          (snd (async_send_fast 1 1024 0 0 0 0 0 2 state_zero)))) = Some 42 \<and>
   retval (amsgs (run ipc_h_example [EXPIRED_TIMEOUTS 5, REPLY_RECEIVED 2 (- 7) None]
       (snd (async_send_fast 1 1024 0 0 0 0 0 2 state_zero))) 2) = 18446744073709551609 \<and>
   fst (async_wait_for 2 True 9
       (run ipc_h_example [EXPIRED_TIMEOUTS 5, REPLY_RECEIVED 2 (- 7) None]
          (snd (async_send_fast 1 1024 0 0 0 0 0 2 state_zero)))) = Returned (Some 18446744073709551609) \<and>
   fst (async_wait_for 2 True 9
       (run ipc_h_example [EXPIRED_TIMEOUTS 5]
          (snd (async_send_fast 1 1024 0 0 0 0 0 2 state_zero)))) = Suspended \<and>
   int (ipcarg_of_int ipc_h_example 42) = 42 \<and>
   int (ipcarg_of_int ipc_h_example (- 7)) = - 7 + 2 ^ 64"
proof -
  let ?evs = "[WAIT_FOR 2 True 9, EXPIRED_TIMEOUTS 5, REPLY_RECEIVED 2 42 None]"
  let ?evs1 = "[EXPIRED_TIMEOUTS 5, REPLY_RECEIVED 2 (- 7) None]"
  let ?evs2 = "[EXPIRED_TIMEOUTS 5]"
  let ?s = "snd (async_send_fast 1 1024 0 0 0 0 0 2 state_zero)"
  have h: "\<forall>ev \<in> set ?evs. \<not> creates_amsg 2 ev" by simp
  have h1: "\<forall>ev \<in> set ?evs1. \<not> creates_amsg 2 ev" by simp
  have h2: "\<forall>ev \<in> set ?evs2. \<not> creates_amsg 2 ev" by simp
  have r: "\<exists>ev \<in> set ?evs. is_reply 2 ev" by simp
  have r1: "\<exists>ev \<in> set ?evs1. is_reply 2 ev" by simp
  have r2: "\<not> (\<exists>ev \<in> set ?evs2. is_reply 2 ev)" by simp
  have f: "take 1 (filter (is_reply 2) ?evs) = [REPLY_RECEIVED 2 42 None]" by simp
  have l: "last_status 2 ?evs = Some 42" by simp
  have l1: "last_status 2 ?evs1 = Some (- 7)" by simp
  have b: "ipcarg_bits ipc_h_example = 64" by (simp add: ipc_h_example_def)
  have v: "ipcarg_of_int ipc_h_example 42 = 42"
    and v1: "ipcarg_of_int ipc_h_example (- 7) = 18446744073709551609"
    by (simp_all add: ipcarg_of_int_def b)
  have two: "(2::nat) \<noteq> 0" by simp
  note th = amsg_done_once [OF h, of 1 1024 0 0 0 0 0 state_zero 0 ?s ipc_h_example True 9 42]
  note th1 = amsg_done_once [OF h1, of 1 1024 0 0 0 0 0 state_zero 0 ?s ipc_h_example True 9 "- 7"]
  note th2 = amsg_done_once [OF h2, of 1 1024 0 0 0 0 0 state_zero 0 ?s ipc_h_example True 9 0]
  from th two have nd: "\<not> done_flag (amsgs ?s 2)"
    and nds: "\<not> done_flag (amsgs (snd (async_send_slow 1 1024 0 0 0 0 0 0 2 state_zero)) 2)"
    by blast+
  with th have "done_changes ipc_h_example 2 ?evs ?s
      = map (\<lambda>ev. (ev, False, True)) (take 1 (filter (is_reply 2) ?evs))" by blast
  then have c: "done_changes ipc_h_example 2 ?evs ?s = [(REPLY_RECEIVED 2 42 None, False, True)]"
    unfolding f by simp
  from th nd r have n: "length (done_changes ipc_h_example 2 ?evs ?s) = 1" by blast
  from th r have d: "done_flag (amsgs (run ipc_h_example ?evs ?s) 2)"
    and "fst (async_wait_for_resume 2 True (run ipc_h_example ?evs ?s))
           = (if True then map_option (ipcarg_of_int ipc_h_example) (last_status 2 ?evs) else None)"
    by blast+
  then have w: "fst (async_wait_for_resume 2 True (run ipc_h_example ?evs ?s)) = Some 42"
    unfolding l by (simp add: v)
  from th1 r1 have "retval (amsgs (run ipc_h_example ?evs1 ?s) 2)
           = ipcarg_of_int ipc_h_example (the (last_status 2 ?evs1))"
    and "fst (async_wait_for 2 True 9 (run ipc_h_example ?evs1 ?s))
           = Returned (if True then map_option (ipcarg_of_int ipc_h_example) (last_status 2 ?evs1) else None)"
    by blast+
  then have w0: "retval (amsgs (run ipc_h_example ?evs1 ?s) 2) = 18446744073709551609"
    and w1: "fst (async_wait_for 2 True 9 (run ipc_h_example ?evs1 ?s))
           = Returned (Some 18446744073709551609)"
    unfolding l1 by (simp_all add: v1)
  from th2 nd r2 have w2: "fst (async_wait_for 2 True 9 (run ipc_h_example ?evs2 ?s)) = Suspended"
    by blast
  have "(0::int) \<le> 42 \<and> (42::int) < 2 ^ ipcarg_bits ipc_h_example" by (simp add: b)
  with th have i: "int (ipcarg_of_int ipc_h_example 42) = 42" by blast
  have "- (2 ^ ipcarg_bits ipc_h_example) \<le> (- 7::int) \<and> (- 7::int) < 0" by (simp add: b)
  with th1 have "int (ipcarg_of_int ipc_h_example (- 7)) = - 7 + 2 ^ ipcarg_bits ipc_h_example"
    by blast
  then have i1: "int (ipcarg_of_int ipc_h_example (- 7)) = - 7 + 2 ^ 64" unfolding b .
  from nd nds c n d w w0 w1 w2 i i1 show ?thesis by blast
qed

subsection \<open>The order of the timeout list\<close>

lemma get_wdata_upd_wdata:
  "get_wdata (upd_wdata r f s) r' = (if r' = r then f (get_wdata s r) else get_wdata s r')"
  by (cases r; cases r'; simp)

lemma get_wdata_upd_conn:
  "(\<And>c. wdata (f c) = wdata c) \<Longrightarrow> get_wdata (upd_conn p f s) r = get_wdata s r"
  by (cases r) simp_all

lemma get_wdata_upd_amsg:
  "(\<And>m. wdata (f m) = wdata m) \<Longrightarrow> get_wdata (upd_amsg p f s) r = get_wdata s r"
  by (cases r) simp_all

lemma get_wdata_cong:
  "conns s' = conns s \<Longrightarrow> amsgs s' = amsgs s \<Longrightarrow> get_wdata s' r = get_wdata s r"
  by (cases r) simp_all

lemma get_wdata_list_remove_timeout [simp]:
  "get_wdata (list_remove_timeout x s) r = get_wdata s r"
  by (rule get_wdata_cong) simp_all

lemma timeout_walk_eq:
  "timeout_walk ex e wd l = takeWhile (\<lambda>c. ex c < e) l @ wd # dropWhile (\<lambda>c. ex c < e) l"
  by (induction l) (auto simp add: tv_gteq_def)

lemma sorted_timeout_walk:
  "sorted (map ex l) \<Longrightarrow> ex wd = e \<Longrightarrow> sorted (map ex (timeout_walk ex e wd l))"
  by (induction l) (auto simp add: tv_gteq_def)

lemma distinct_timeout_walk:
  "distinct l \<Longrightarrow> wd \<notin> set l \<Longrightarrow> distinct (timeout_walk ex e wd l)"
  by (induction l) auto

lemma sorted_map_remove1:
  "sorted (map ex l) \<Longrightarrow> sorted (map ex (remove1 x l))"
proof (induction l)
  case Nil
  then show ?case by simp
next
  case (Cons a l)
  then show ?case
    using set_remove1_subset [of x l] by auto
qed

lemma timeout_inv_same:
  assumes "timeout_inv s" and "timeout_list s' = timeout_list s"
    and "\<forall>r \<in> set (timeout_list s). get_wdata s' r = get_wdata s r"
  shows "timeout_inv s'"
proof -
  from assms(3) have m: "map (expires_of s') (timeout_list s) = map (expires_of s) (timeout_list s)"
    by (simp add: expires_of_def)
  have "sorted (map (expires_of s') (timeout_list s'))"
    unfolding assms(2) m using assms(1) by (simp add: timeout_inv_def)
  with assms show ?thesis by (simp add: timeout_inv_def)
qed

lemma timeout_inv_unlink:
  assumes "timeout_inv s" and "timeout_list s' = remove1 x (timeout_list s)"
    and "\<forall>r \<in> set (timeout_list s). r \<noteq> x \<longrightarrow> get_wdata s' r = get_wdata s r"
  shows "timeout_inv s' \<and> x \<notin> set (timeout_list s')"
proof -
  from assms(1) have d: "distinct (timeout_list s)" by (simp add: timeout_inv_def)
  then have mem: "set (remove1 x (timeout_list s)) = set (timeout_list s) - {x}" by simp
  with assms(3) have m: "map (expires_of s') (remove1 x (timeout_list s))
      = map (expires_of s) (remove1 x (timeout_list s))"
    by (simp add: expires_of_def)
  have "sorted (map (expires_of s') (timeout_list s'))"
    unfolding assms(2) m using assms(1) by (simp add: timeout_inv_def sorted_map_remove1)
  then show ?thesis
    using assms d mem by (simp add: timeout_inv_def)
qed

lemma timeout_inv_link:
  assumes "timeout_inv s" and "x \<notin> set (timeout_list s)"
    and "timeout_list s' = timeout_walk (expires_of s') (expires_of s' x) x (timeout_list s)"
    and "\<forall>r \<in> set (timeout_list s). get_wdata s' r = get_wdata s r"
    and "inlist (to_event (get_wdata s' x))" and "\<not> active (get_wdata s' x)"
  shows "timeout_inv s'"
proof -
  from assms(4) have m: "map (expires_of s') (timeout_list s) = map (expires_of s) (timeout_list s)"
    by (simp add: expires_of_def)
  have "sorted (map (expires_of s') (timeout_list s))"
    unfolding m using assms(1) by (simp add: timeout_inv_def)
  then have "sorted (map (expires_of s') (timeout_list s'))"
    unfolding assms(3) by (rule sorted_timeout_walk) simp
  moreover from assms(1,2) have "distinct (timeout_list s')"
    unfolding assms(3) by (simp add: timeout_inv_def distinct_timeout_walk)
  moreover have "\<forall>r \<in> set (timeout_list s'). inlist (to_event (get_wdata s' r)) \<and> \<not> active (get_wdata s' r)"
    unfolding assms(3) using assms(1,4,5,6) by (auto simp add: timeout_inv_def)
  ultimately show ?thesis by (simp add: timeout_inv_def)
qed


lemma get_wdata_other_fields [simp]:
  "get_wdata (s\<lparr>timeout_list := l\<rparr>) r = get_wdata s r"
  "get_wdata (s\<lparr>conn_hash_table := h\<rparr>) r = get_wdata s r"
  "get_wdata (s\<lparr>calls := c\<rparr>) r = get_wdata s r"
  "get_wdata (s\<lparr>trace := t\<rparr>) r = get_wdata s r"
  by (cases r; simp)+

lemma async_insert_timeout_wdata:
  "get_wdata (async_insert_timeout x s) r
     = (if r = x then set_inlist True (set_occurred False (get_wdata s x)) else get_wdata s r)"
  by (simp add: async_insert_timeout_def Let_def get_wdata_upd_wdata)

lemma expires_set_flags [simp]:
  "expires (to_event (set_inlist b w)) = expires (to_event w)"
  "expires (to_event (set_occurred b w)) = expires (to_event w)"
  "expires (to_event (set_active b w)) = expires (to_event w)"
  "expires (to_event (set_fid f w)) = expires (to_event w)"
  "expires (to_event (set_expires tv w)) = tv"
  by (simp_all add: set_inlist_def set_occurred_def set_active_def set_fid_def set_expires_def)

lemma inlist_set_flags [simp]:
  "inlist (to_event (set_inlist b w)) = b"
  "inlist (to_event (set_occurred b w)) = inlist (to_event w)"
  "inlist (to_event (set_active b w)) = inlist (to_event w)"
  "inlist (to_event (set_fid f w)) = inlist (to_event w)"
  "inlist (to_event (set_expires tv w)) = inlist (to_event w)"
  by (simp_all add: set_inlist_def set_occurred_def set_active_def set_fid_def set_expires_def)

lemma active_set_flags [simp]:
  "active (set_inlist b w) = active w"
  "active (set_occurred b w) = active w"
  "active (set_active b w) = b"
  "active (set_fid f w) = active w"
  "active (set_expires tv w) = active w"
  by (simp_all add: set_inlist_def set_occurred_def set_active_def set_fid_def set_expires_def)

lemma expires_of_async_insert_timeout [simp]:
  "expires_of (async_insert_timeout x s) = expires_of s"
  by (rule ext) (simp add: expires_of_def async_insert_timeout_wdata)

lemma async_insert_timeout_list:
  "timeout_list (async_insert_timeout x s)
     = timeout_walk (expires_of s) (expires_of s x) x (timeout_list s)"
proof -
  have "expires_of (upd_wdata x (set_inlist True) (upd_wdata x (set_occurred False) s)) = expires_of s"
    by (rule ext) (simp add: expires_of_def get_wdata_upd_wdata)
  then show ?thesis by (simp add: async_insert_timeout_def Let_def)
qed

lemma timeout_inv_insert:
  assumes "timeout_inv s" and "x \<notin> set (timeout_list s)" and "\<not> active (get_wdata s x)"
  shows "timeout_inv (async_insert_timeout x s)"
proof (rule timeout_inv_link [OF assms(1,2)])
  show "timeout_list (async_insert_timeout x s)
      = timeout_walk (expires_of (async_insert_timeout x s)) (expires_of (async_insert_timeout x s) x) x
          (timeout_list s)"
    by (simp add: async_insert_timeout_list)
  show "\<forall>r \<in> set (timeout_list s). get_wdata (async_insert_timeout x s) r = get_wdata s r"
    using assms(2) by (auto simp add: async_insert_timeout_wdata)
  show "inlist (to_event (get_wdata (async_insert_timeout x s) x))"
    by (simp add: async_insert_timeout_wdata)
  show "\<not> active (get_wdata (async_insert_timeout x s) x)"
    using assms(3) by (simp add: async_insert_timeout_wdata)
qed

lemma timeout_inv_upd_unlinked:
  assumes "timeout_inv s" and "x \<notin> set (timeout_list s)"
  shows "timeout_inv (upd_wdata x f s)"
  using assms(1)
proof (rule timeout_inv_same)
  show "timeout_list (upd_wdata x f s) = timeout_list s" by simp
  show "\<forall>r \<in> set (timeout_list s). get_wdata (upd_wdata x f s) r = get_wdata s r"
    using assms(2) by (auto simp add: get_wdata_upd_wdata)
qed

lemma timeout_inv_emit [simp]: "timeout_inv (emit e s) = timeout_inv s"
  by (simp add: timeout_inv_def expires_of_def [abs_def])

lemma timeout_inv_active_unlinked:
  "timeout_inv s \<Longrightarrow> active (get_wdata s x) \<Longrightarrow> x \<notin> set (timeout_list s)"
  by (auto simp add: timeout_inv_def)

lemma timeout_inv_upd_conn:
  assumes "timeout_inv s" and "\<And>c. wdata (f c) = wdata c"
  shows "timeout_inv (upd_conn p f s)"
  using assms(1)
proof (rule timeout_inv_same)
  show "timeout_list (upd_conn p f s) = timeout_list s" by simp
  show "\<forall>r \<in> set (timeout_list s). get_wdata (upd_conn p f s) r = get_wdata s r"
    using assms(2) by (simp add: get_wdata_upd_conn)
qed

lemma timeout_inv_upd_amsg:
  assumes "timeout_inv s" and "\<And>m. wdata (f m) = wdata m"
  shows "timeout_inv (upd_amsg p f s)"
  using assms(1)
proof (rule timeout_inv_same)
  show "timeout_list (upd_amsg p f s) = timeout_list s" by simp
  show "\<forall>r \<in> set (timeout_list s). get_wdata (upd_amsg p f s) r = get_wdata s r"
    using assms(2) by (simp add: get_wdata_upd_amsg)
qed

lemma timeout_inv_woken:
  assumes "timeout_inv s"
    and "timeout_list s'
           = (if inlist (to_event (get_wdata s x)) then remove1 x (timeout_list s) else timeout_list s)"
    and "\<forall>r \<in> set (timeout_list s). r \<noteq> x \<longrightarrow> get_wdata s' r = get_wdata s r"
  shows "timeout_inv s'"
proof -
  have "timeout_list s' = remove1 x (timeout_list s)"
  proof (cases "inlist (to_event (get_wdata s x))")
    case True
    with assms(2) show ?thesis by simp
  next
    case False
    with assms(1) have "x \<notin> set (timeout_list s)" by (auto simp add: timeout_inv_def)
    with assms(2) False show ?thesis by (simp add: remove1_idem)
  qed
  with assms(1,3) timeout_inv_unlink [of s s' x] show ?thesis by simp
qed

lemma timeout_inv_insert_suspend:
  assumes "timeout_inv s" and "x \<notin> set (timeout_list s)"
  shows "timeout_inv (upd_wdata x (set_active False) (async_insert_timeout x s))"
proof (rule timeout_inv_link [OF assms])
  let ?s' = "upd_wdata x (set_active False) (async_insert_timeout x s)"
  have e: "expires_of ?s' = expires_of s"
    by (rule ext) (simp add: expires_of_def get_wdata_upd_wdata async_insert_timeout_wdata)
  show "timeout_list ?s' = timeout_walk (expires_of ?s') (expires_of ?s' x) x (timeout_list s)"
    unfolding e by (simp add: async_insert_timeout_list)
  show "\<forall>r \<in> set (timeout_list s). get_wdata ?s' r = get_wdata s r"
    using assms(2) by (auto simp add: get_wdata_upd_wdata async_insert_timeout_wdata)
  show "inlist (to_event (get_wdata ?s' x))"
    by (simp add: get_wdata_upd_wdata async_insert_timeout_wdata)
  show "\<not> active (get_wdata ?s' x)"
    by (simp add: get_wdata_upd_wdata)
qed

lemma expired_loop_inv:
  "timeout_inv s \<Longrightarrow> timeout_inv (expired_loop tv s)"
proof (induction tv s rule: expired_loop.induct)
  case (1 tv s)
  show ?case
  proof (cases "timeout_list s")
    case Nil
    with "1.prems" show ?thesis by (subst expired_loop.simps) simp
  next
    case (Cons cur rest)
    show ?thesis
    proof (cases "tv_gt (expires_of s cur) tv")
      case True
      with Cons "1.prems" show ?thesis by (subst expired_loop.simps) simp
    next
      case False
      define s3 where
        "s3 = upd_wdata cur (set_occurred True) (upd_wdata cur (set_inlist False) (s\<lparr>timeout_list := rest\<rparr>))"
      define s4 where
        "s4 = (if \<not> active (get_wdata s3 cur)
               then let s5 = upd_wdata cur (set_active True) s3
                    in fibril_add_ready (fid (get_wdata s5 cur)) s5
               else s3)"
      from "1.prems" Cons have nc: "cur \<notin> set rest" by (simp add: timeout_inv_def)
      have "timeout_inv s4 \<and> cur \<notin> set (timeout_list s4)"
        using "1.prems"
      proof (rule timeout_inv_unlink)
        show "timeout_list s4 = remove1 cur (timeout_list s)"
          using Cons by (simp add: s4_def s3_def Let_def fibril_add_ready_def)
        show "\<forall>r \<in> set (timeout_list s). r \<noteq> cur \<longrightarrow> get_wdata s4 r = get_wdata s r"
          by (simp add: s4_def s3_def Let_def fibril_add_ready_def get_wdata_upd_wdata)
      qed
      then have i4: "timeout_inv s4" ..
      have ih: "timeout_inv s4 \<Longrightarrow> timeout_inv (expired_loop tv s4)"
        using "1.IH" [OF Cons False refl refl refl refl]
        unfolding s4_def s3_def Let_def .
      have "expired_loop tv s = expired_loop tv s4"
        by (subst expired_loop.simps) (simp only: Cons False list.case if_False s4_def s3_def Let_def)
      with ih [OF i4] show ?thesis by simp
    qed
  qed
qed

lemma handle_expired_timeouts_inv:
  "timeout_inv s \<Longrightarrow> timeout_inv (handle_expired_timeouts tv s)"
  by (simp add: handle_expired_timeouts_def effect_defs expired_loop_inv)


lemma get_wdata_upd_conn_wdata [simp]:
  "get_wdata (upd_conn p (\<lambda>c. c\<lparr>wdata := f (wdata c)\<rparr>) s) r
     = (if r = Conn_wdata p then f (get_wdata s r) else get_wdata s r)"
  by (cases r) simp_all

lemma get_wdata_upd_amsg_wdata [simp]:
  "get_wdata (upd_amsg p (\<lambda>m. m\<lparr>wdata := f (wdata m)\<rparr>) s) r
     = (if r = Amsg_wdata p then f (get_wdata s r) else get_wdata s r)"
  by (cases r) simp_all

lemma get_wdata_upd_conn_members [simp]:
  "get_wdata (upd_conn p (\<lambda>c. c\<lparr>msg_queue := q c\<rparr>) s) r = get_wdata s r"
  "get_wdata (upd_conn p (\<lambda>c. c\<lparr>close_callid := k\<rparr>) s) r = get_wdata s r"
  "get_wdata (upd_conn p (\<lambda>c. c\<lparr>conn_call := ic\<rparr>) s) r = get_wdata s r"
  "get_wdata (upd_conn p (\<lambda>c. c\<lparr>cfibril := cf\<rparr>) s) r = get_wdata s r"
  "get_wdata (upd_conn p (\<lambda>c. c\<lparr>conn_in_phone_hash := h, msg_queue := [], conn_callid := ci,
                                  close_callid := 0\<rparr>) s) r = get_wdata s r"
  by (simp_all add: get_wdata_upd_conn)

lemma get_wdata_upd_amsg_members [simp]:
  "get_wdata (upd_amsg p (\<lambda>m. m\<lparr>done_flag := d\<rparr>) s) r = get_wdata s r"
  "get_wdata (upd_amsg p (\<lambda>m. m\<lparr>dataptr := dp\<rparr>) s) r = get_wdata s r"
  "get_wdata (upd_amsg p (\<lambda>m. m\<lparr>retval := rv\<rparr>) s) r = get_wdata s r"
  by (simp_all add: get_wdata_upd_amsg)

lemma route_call_inv:
  assumes "timeout_inv s"
  shows "timeout_inv (snd (route_call K cid icall ok s))"
proof (cases "hash_table_find s (in_phone_hash icall)")
  case None
  with assms show ?thesis by (simp add: route_call_def Let_def effect_defs)
next
  case (Some conn)
  show ?thesis
  proof (cases "ok \<and> \<not> active (wdata (conns s conn))")
    case False
    show ?thesis
      using assms
    proof (rule timeout_inv_same)
      show "timeout_list (snd (route_call K cid icall ok s)) = timeout_list s"
        using Some False by (auto simp add: route_call_def Let_def effect_defs)
      show "\<forall>r \<in> set (timeout_list s). get_wdata (snd (route_call K cid icall ok s)) r = get_wdata s r"
        using Some False by (auto simp add: route_call_def Let_def effect_defs)
    qed
  next
    case True
    show ?thesis
      using assms
    proof (rule timeout_inv_woken [where x = "Conn_wdata conn"])
      show "timeout_list (snd (route_call K cid icall ok s))
          = (if inlist (to_event (get_wdata s (Conn_wdata conn)))
             then remove1 (Conn_wdata conn) (timeout_list s) else timeout_list s)"
        using Some True by (simp add: route_call_def Let_def effect_defs)
      show "\<forall>r \<in> set (timeout_list s). r \<noteq> Conn_wdata conn \<longrightarrow>
              get_wdata (snd (route_call K cid icall ok s)) r = get_wdata s r"
        using Some True by (simp add: route_call_def Let_def effect_defs)
    qed
  qed
qed

lemma reply_received_inv:
  assumes "timeout_inv s"
  shows "timeout_inv (reply_received K msg rv data s)"
  using assms
proof (rule timeout_inv_woken [where x = "Amsg_wdata msg"])
  show "timeout_list (reply_received K msg rv data s)
      = (if inlist (to_event (get_wdata s (Amsg_wdata msg)))
         then remove1 (Amsg_wdata msg) (timeout_list s) else timeout_list s)"
    by (simp add: reply_received_def Let_def effect_defs split: option.splits)
  show "\<forall>r \<in> set (timeout_list s). r \<noteq> Amsg_wdata msg \<longrightarrow>
          get_wdata (reply_received K msg rv data s) r = get_wdata s r"
    by (simp add: reply_received_def Let_def effect_defs split: option.splits)
qed

lemma get_call_loop_inv:
  assumes "timeout_inv s" and "Conn_wdata conn \<notin> set (timeout_list s)"
  shows "timeout_inv (snd (get_call_loop K conn usecs s))"
proof (cases "msg_queue (conns s conn)")
  case (Cons m rest)
  with assms(1) show ?thesis
    by (simp add: get_call_loop_def Let_def effect_defs timeout_inv_upd_conn)
next
  case Nil
  show ?thesis
  proof (cases "close_callid (conns s conn) \<noteq> 0")
    case True
    with Nil assms(1) show ?thesis by (simp add: get_call_loop_def effect_defs)
  next
    case False
    from assms have "timeout_inv (upd_wdata (Conn_wdata conn) (set_active False)
        (async_insert_timeout (Conn_wdata conn) s))"
      by (rule timeout_inv_insert_suspend)
    moreover from assms have "timeout_inv (upd_wdata (Conn_wdata conn) (set_active False) s)"
      by (rule timeout_inv_upd_unlinked)
    ultimately show ?thesis
      using Nil False by (simp add: get_call_loop_def Let_def)
  qed
qed

lemma async_get_call_timeout_inv:
  assumes "timeout_inv s" and "active (wdata (conns s conn))"
  shows "timeout_inv (snd (async_get_call_timeout K conn usecs now s))"
proof -
  from assms have u: "Conn_wdata conn \<notin> set (timeout_list s)"
    using timeout_inv_active_unlinked [of s "Conn_wdata conn"] by simp
  define s2 where "s2 = (if usecs \<noteq> 0
        then upd_wdata (Conn_wdata conn) (set_expires (tv_add now usecs)) (futex_down s)
        else upd_wdata (Conn_wdata conn) (set_inlist False) (futex_down s))"
  from assms(1) u have "timeout_inv s2"
    unfolding s2_def by (simp add: futex_down_def timeout_inv_upd_unlinked del: upd_wdata.simps)
  moreover from u have "Conn_wdata conn \<notin> set (timeout_list s2)"
    by (simp add: s2_def futex_down_def)
  ultimately have "timeout_inv (snd (get_call_loop K conn usecs s2))"
    by (rule get_call_loop_inv)
  then show ?thesis by (simp add: async_get_call_timeout_def Let_def s2_def)
qed

lemma async_get_call_timeout_resume_inv:
  assumes "timeout_inv s" and "active (wdata (conns s conn))"
  shows "timeout_inv (snd (async_get_call_timeout_resume K conn usecs s))"
proof -
  from assms have u: "Conn_wdata conn \<notin> set (timeout_list s)"
    using timeout_inv_active_unlinked [of s "Conn_wdata conn"] by simp
  with assms(1) have "timeout_inv (snd (get_call_loop K conn usecs (futex_down s)))"
    by (intro get_call_loop_inv) (simp_all add: futex_down_def)
  with assms(1) show ?thesis
    by (simp add: async_get_call_timeout_resume_def Let_def effect_defs)
qed


lemma timeout_inv_unlinked_chain:
  assumes "timeout_inv s" and "timeout_list s' = timeout_list s"
    and "\<And>r. r \<noteq> x \<Longrightarrow> get_wdata s' r = get_wdata s r"
    and "x \<notin> set (timeout_list s)"
  shows "timeout_inv s'"
  using assms(1,2)
proof (rule timeout_inv_same)
  show "\<forall>r \<in> set (timeout_list s). get_wdata s' r = get_wdata s r"
  proof
    fix r
    assume "r \<in> set (timeout_list s)"
    with assms(4) have "r \<noteq> x" by auto
    then show "get_wdata s' r = get_wdata s r" by (rule assms(3))
  qed
qed

lemma get_wdata_hash_table [simp]:
  "get_wdata (hash_table_insert key item s) r = get_wdata s r"
  "get_wdata (hash_table_remove key s) r = get_wdata s r"
  by (cases r; simp)+

lemma async_new_connection_inv:
  assumes "timeout_inv s" and "conn = 0 \<or> Conn_wdata conn \<notin> set (timeout_list s)"
  shows "timeout_inv (snd (async_new_connection hash cid icall cfib conn new_fid s))"
proof (cases "conn = 0")
  case True
  with assms(1) show ?thesis by (simp add: async_new_connection_def effect_defs)
next
  case False
  with assms(2) have u: "Conn_wdata conn \<notin> set (timeout_list s)" by simp
  show ?thesis
    using assms(1)
  proof (rule timeout_inv_unlinked_chain [where x = "Conn_wdata conn"])
    show "timeout_list (snd (async_new_connection hash cid icall cfib conn new_fid s)) = timeout_list s"
      by (simp add: async_new_connection_def Let_def effect_defs split: option.splits)
    show "\<And>r. r \<noteq> Conn_wdata conn \<Longrightarrow>
            get_wdata (snd (async_new_connection hash cid icall cfib conn new_fid s)) r = get_wdata s r"
      by (simp add: async_new_connection_def Let_def effect_defs split: option.splits)
    show "Conn_wdata conn \<notin> set (timeout_list s)" by (rule u)
  qed
qed

lemma handle_call_inv:
  assumes "timeout_inv s" and "conn_ret env = 0 \<or> Conn_wdata (conn_ret env) \<notin> set (timeout_list s)"
  shows "timeout_inv (handle_call K cid icall env s)"
proof -
  have "timeout_inv (snd (process_notification cid icall (msg_ok env) (fid_ret env) s))"
    using assms(1) by (simp add: process_notification_def Let_def effect_defs)
  moreover have "timeout_inv (snd (async_new_connection (arg5 icall) cid (Some icall)
      (client_connection s) (conn_ret env) (fid_ret env) s))"
    using assms by (rule async_new_connection_inv)
  moreover have "timeout_inv (snd (route_call K cid icall (msg_ok env) s))"
    using assms(1) by (rule route_call_inv)
  ultimately show ?thesis
    by (cases "route_call K cid icall (msg_ok env) s")
       (auto simp add: handle_call_def ipc_answer_0_def split: bool.splits)
qed

lemma hangup_loop_timeout_list [simp]: "timeout_list (hangup_loop conn s) = timeout_list s"
proof (induction conn s rule: hangup_loop.induct)
  case (1 conn s)
  show ?case
  proof (cases "msg_queue (conns s conn)")
    case Nil
    then show ?thesis by (subst hangup_loop.simps) simp
  next
    case (Cons msg rest)
    with "1.IH" [OF Cons] show ?thesis
      by (subst hangup_loop.simps) (simp add: ipc_answer_0_def free_msg_def)
  qed
qed

lemma get_wdata_hangup_loop [simp]: "get_wdata (hangup_loop conn s) r = get_wdata s r"
  by (cases r) (simp_all add: hangup_loop_conn)

lemma connection_fibril_exit_inv:
  assumes "timeout_inv s"
  shows "timeout_inv (case connection_fibril_exit conn s of Inl (f, s1) \<Rightarrow> s1 | Inr s1 \<Rightarrow> s1)"
  using assms
proof (rule timeout_inv_same)
  show "timeout_list (case connection_fibril_exit conn s of Inl (f, s1) \<Rightarrow> s1 | Inr s1 \<Rightarrow> s1)
      = timeout_list s"
    by (simp add: connection_fibril_exit_def Let_def effect_defs)
  show "\<forall>r \<in> set (timeout_list s).
      get_wdata (case connection_fibril_exit conn s of Inl (f, s1) \<Rightarrow> s1 | Inr s1 \<Rightarrow> s1) r
        = get_wdata s r"
    by (simp add: connection_fibril_exit_def Let_def effect_defs)
qed

lemma async_send_inv:
  assumes "timeout_inv s" and "msg = 0 \<or> Amsg_wdata msg \<notin> set (timeout_list s)"
  shows "timeout_inv (snd (async_send_fast phoneid meth a1 a2 a3 a4 dptr msg s))"
    and "timeout_inv (snd (async_send_slow phoneid meth a1 a2 a3 a4 a5 dptr msg s))"
proof -
  show "timeout_inv (snd (async_send_fast phoneid meth a1 a2 a3 a4 dptr msg s))"
  proof (cases "msg = 0")
    case True
    with assms(1) show ?thesis by (simp add: async_send_fast_def)
  next
    case False
    with assms(2) have u: "Amsg_wdata msg \<notin> set (timeout_list s)" by simp
    show ?thesis
      using assms(1)
    proof (rule timeout_inv_unlinked_chain [where x = "Amsg_wdata msg"])
      show "timeout_list (snd (async_send_fast phoneid meth a1 a2 a3 a4 dptr msg s)) = timeout_list s"
        by (simp add: async_send_fast_def Let_def)
      show "\<And>r. r \<noteq> Amsg_wdata msg \<Longrightarrow>
              get_wdata (snd (async_send_fast phoneid meth a1 a2 a3 a4 dptr msg s)) r = get_wdata s r"
        by (simp add: async_send_fast_def Let_def)
      show "Amsg_wdata msg \<notin> set (timeout_list s)" by (rule u)
    qed
  qed
  show "timeout_inv (snd (async_send_slow phoneid meth a1 a2 a3 a4 a5 dptr msg s))"
  proof (cases "msg = 0")
    case True
    with assms(1) show ?thesis by (simp add: async_send_slow_def)
  next
    case False
    with assms(2) have u: "Amsg_wdata msg \<notin> set (timeout_list s)" by simp
    show ?thesis
      using assms(1)
    proof (rule timeout_inv_unlinked_chain [where x = "Amsg_wdata msg"])
      show "timeout_list (snd (async_send_slow phoneid meth a1 a2 a3 a4 a5 dptr msg s)) = timeout_list s"
        by (simp add: async_send_slow_def Let_def)
      show "\<And>r. r \<noteq> Amsg_wdata msg \<Longrightarrow>
              get_wdata (snd (async_send_slow phoneid meth a1 a2 a3 a4 a5 dptr msg s)) r = get_wdata s r"
        by (simp add: async_send_slow_def Let_def)
      show "Amsg_wdata msg \<notin> set (timeout_list s)" by (rule u)
    qed
  qed
qed

lemma async_wait_for_inv:
  assumes "timeout_inv s" and "active (wdata (amsgs s msg))"
  shows "timeout_inv (snd (async_wait_for msg want self s))"
proof -
  from assms have u: "Amsg_wdata msg \<notin> set (timeout_list s)"
    using timeout_inv_active_unlinked [of s "Amsg_wdata msg"] by simp
  show ?thesis
    using assms(1)
  proof (rule timeout_inv_unlinked_chain [where x = "Amsg_wdata msg"])
    show "timeout_list (snd (async_wait_for msg want self s)) = timeout_list s"
      by (simp add: async_wait_for_def wait_done_def Let_def effect_defs)
    show "\<And>r. r \<noteq> Amsg_wdata msg \<Longrightarrow> get_wdata (snd (async_wait_for msg want self s)) r = get_wdata s r"
      by (simp add: async_wait_for_def wait_done_def Let_def effect_defs)
    show "Amsg_wdata msg \<notin> set (timeout_list s)" by (rule u)
  qed
qed

lemma wait_done_inv [simp]: "timeout_inv (snd (wait_done msg want s)) = timeout_inv s"
  by (simp add: wait_done_def free_def)

lemma async_wait_timeout_inv:
  assumes "timeout_inv s" and "active (wdata (amsgs s msg))"
  shows "timeout_inv (snd (async_wait_timeout msg want timeout now self s))"
proof (cases "timeout < 0 \<or> done_flag (amsgs s msg)")
  case True
  with assms(1) show ?thesis
    by (auto simp add: async_wait_timeout_def Let_def effect_defs wait_done_def)
next
  case False
  from assms have u: "Amsg_wdata msg \<notin> set (timeout_list s)"
    using timeout_inv_active_unlinked [of s "Amsg_wdata msg"] by simp
  define s4 where
    "s4 = upd_wdata (Amsg_wdata msg) (set_active False)
            (upd_wdata (Amsg_wdata msg) (set_fid self)
              (upd_wdata (Amsg_wdata msg) (set_expires (tv_add now timeout)) (futex_down s)))"
  have "timeout_inv s4"
    using assms(1)
  proof (rule timeout_inv_unlinked_chain [where x = "Amsg_wdata msg"])
    show "timeout_list s4 = timeout_list s" by (simp add: s4_def futex_down_def)
    show "\<And>r. r \<noteq> Amsg_wdata msg \<Longrightarrow> get_wdata s4 r = get_wdata s r"
      by (simp add: s4_def futex_down_def)
    show "Amsg_wdata msg \<notin> set (timeout_list s)" by (rule u)
  qed
  moreover from u have "Amsg_wdata msg \<notin> set (timeout_list s4)" by (simp add: s4_def futex_down_def)
  moreover have "\<not> active (get_wdata s4 (Amsg_wdata msg))" by (simp add: s4_def)
  ultimately have "timeout_inv (async_insert_timeout (Amsg_wdata msg) s4)"
    by (rule timeout_inv_insert)
  with False show ?thesis
    by (simp add: async_wait_timeout_def Let_def s4_def futex_down_def)
qed

lemma async_usleep_inv:
  assumes "timeout_inv s" and "msg = 0 \<or> Amsg_wdata msg \<notin> set (timeout_list s)"
  shows "timeout_inv (snd (async_usleep timeout msg now self s))"
proof (cases "msg = 0")
  case True
  with assms(1) show ?thesis by (simp add: async_usleep_def)
next
  case False
  with assms(2) have u: "Amsg_wdata msg \<notin> set (timeout_list s)" by simp
  define s4 where
    "s4 = futex_down (upd_wdata (Amsg_wdata msg) (set_expires (tv_add now timeout))
            (upd_wdata (Amsg_wdata msg) (set_active False)
              (upd_wdata (Amsg_wdata msg) (set_fid self) s)))"
  have "timeout_inv s4"
    using assms(1)
  proof (rule timeout_inv_unlinked_chain [where x = "Amsg_wdata msg"])
    show "timeout_list s4 = timeout_list s" by (simp add: s4_def futex_down_def)
    show "\<And>r. r \<noteq> Amsg_wdata msg \<Longrightarrow> get_wdata s4 r = get_wdata s r"
      by (simp add: s4_def futex_down_def)
    show "Amsg_wdata msg \<notin> set (timeout_list s)" by (rule u)
  qed
  moreover from u have "Amsg_wdata msg \<notin> set (timeout_list s4)" by (simp add: s4_def futex_down_def)
  moreover have "\<not> active (get_wdata s4 (Amsg_wdata msg))" by (simp add: s4_def futex_down_def)
  ultimately have "timeout_inv (async_insert_timeout (Amsg_wdata msg) s4)"
    by (rule timeout_inv_insert)
  with False show ?thesis
    by (simp add: async_usleep_def Let_def s4_def)
qed

lemma step_inv:
  assumes "timeout_inv s" and "enabled K ev s"
  shows "timeout_inv (snd (step K ev s))"
proof (cases ev)
  case (HANDLE_CALL cid icall env)
  with assms handle_call_inv [of s env K cid icall] show ?thesis by simp
next
  case (NEW_CONNECTION hash cid icall cfib conn new_fid)
  with assms async_new_connection_inv [of s conn hash cid icall cfib new_fid] show ?thesis by simp
next
  case (EXPIRED_TIMEOUTS tv)
  with assms show ?thesis by (simp add: handle_expired_timeouts_inv)
next
  case (GET_CALL conn usecs now)
  with assms show ?thesis by (simp add: async_get_call_timeout_inv)
next
  case (GET_CALL_RESUME conn usecs)
  with assms show ?thesis by (simp add: async_get_call_timeout_resume_inv)
next
  case (CONNECTION_EXIT conn)
  with assms show ?thesis by (simp add: connection_fibril_exit_inv)
next
  case (SEND_FAST phoneid meth a1 a2 a3 a4 dptr msg)
  with assms async_send_inv(1) [of s msg phoneid meth a1 a2 a3 a4 dptr] show ?thesis by simp
next
  case (SEND_SLOW phoneid meth a1 a2 a3 a4 a5 dptr msg)
  with assms async_send_inv(2) [of s msg phoneid meth a1 a2 a3 a4 a5 dptr] show ?thesis by simp
next
  case (REPLY_RECEIVED msg rv data)
  with assms show ?thesis by (simp add: reply_received_inv)
next
  case (WAIT_FOR msg want self)
  with assms show ?thesis by (simp add: async_wait_for_inv)
next
  case (WAIT_FOR_RESUME msg want)
  with assms show ?thesis by (simp add: async_wait_for_resume_def)
next
  case (WAIT_TIMEOUT msg want timeout now self)
  with assms show ?thesis by (simp add: async_wait_timeout_inv)
next
  case (WAIT_TIMEOUT_RESUME msg want)
  with assms show ?thesis by (simp add: async_wait_timeout_resume_def wait_done_def free_def)
next
  case (USLEEP timeout msg now self)
  with assms async_usleep_inv [of s msg timeout now self] show ?thesis by simp
next
  case (USLEEP_RESUME msg)
  with assms show ?thesis by (simp add: async_usleep_resume_def free_def)
qed

lemma run_inv:
  "timeout_inv s \<Longrightarrow> run_enabled K evs s \<Longrightarrow> timeout_inv (run K evs s)"
proof (induction evs arbitrary: s)
  case Nil
  then show ?case by simp
next
  case (Cons ev evs)
  from Cons.prems have "timeout_inv (snd (step K ev s))" by (simp add: step_inv)
  with Cons.IH [of "snd (step K ev s)"] Cons.prems show ?case by simp
qed


lemma expired_loop_untouched:
  "r \<notin> set (timeout_list s) \<Longrightarrow> get_wdata (expired_loop tv s) r = get_wdata s r"
proof (induction tv s rule: expired_loop.induct)
  case (1 tv s)
  show ?case
  proof (cases "timeout_list s")
    case Nil
    then show ?thesis by (subst expired_loop.simps) simp
  next
    case (Cons cur rest)
    show ?thesis
    proof (cases "tv_gt (expires_of s cur) tv")
      case True
      with Cons show ?thesis by (subst expired_loop.simps) simp
    next
      case False
      define s4 where
        "s4 = (let s1 = s\<lparr>timeout_list := rest\<rparr>;
                   s2 = upd_wdata cur (set_inlist False) s1;
                   s3 = upd_wdata cur (set_occurred True) s2
               in if \<not> active (get_wdata s3 cur)
                  then let s5 = upd_wdata cur (set_active True) s3
                       in fibril_add_ready (fid (get_wdata s5 cur)) s5
                  else s3)"
      have l4: "timeout_list s4 = rest"
        by (simp add: s4_def Let_def fibril_add_ready_def)
      from "1.prems" Cons have ne: "r \<noteq> cur" and nr: "r \<notin> set rest" by auto
      have ih: "r \<notin> set (timeout_list s4) \<Longrightarrow> get_wdata (expired_loop tv s4) r = get_wdata s4 r"
        using "1.IH" [OF Cons False refl refl refl refl] unfolding s4_def Let_def .
      have e: "expired_loop tv s = expired_loop tv s4"
        by (subst expired_loop.simps) (simp only: Cons False list.case if_False s4_def Let_def)
      have "get_wdata s4 r = get_wdata s r"
        using ne by (simp add: s4_def Let_def fibril_add_ready_def get_wdata_upd_wdata)
      with ih nr l4 e show ?thesis by simp
    qed
  qed
qed

lemma expired_loop_unlinked:
  assumes "timeout_inv s" and "r \<in> set (timeout_list s)" and "r \<notin> set (timeout_list (expired_loop tv s))"
  shows "\<not> inlist (to_event (get_wdata (expired_loop tv s) r)) \<and>
         occurred (to_event (get_wdata (expired_loop tv s) r)) \<and>
         active (get_wdata (expired_loop tv s) r)"
  using assms
proof (induction tv s rule: expired_loop.induct)
  case (1 tv s)
  show ?case
  proof (cases "timeout_list s")
    case Nil
    with "1.prems" show ?thesis by simp
  next
    case (Cons cur rest)
    show ?thesis
    proof (cases "tv_gt (expires_of s cur) tv")
      case True
      with Cons have "expired_loop tv s = s" by (subst expired_loop.simps) simp
      with "1.prems" show ?thesis by simp
    next
      case False
      define s4 where
        "s4 = (let s1 = s\<lparr>timeout_list := rest\<rparr>;
                   s2 = upd_wdata cur (set_inlist False) s1;
                   s3 = upd_wdata cur (set_occurred True) s2
               in if \<not> active (get_wdata s3 cur)
                  then let s5 = upd_wdata cur (set_active True) s3
                       in fibril_add_ready (fid (get_wdata s5 cur)) s5
                  else s3)"
      have l4: "timeout_list s4 = rest"
        by (simp add: s4_def Let_def fibril_add_ready_def)
      have w4: "\<And>x. x \<noteq> cur \<Longrightarrow> get_wdata s4 x = get_wdata s x"
        by (simp add: s4_def Let_def fibril_add_ready_def get_wdata_upd_wdata)
      have c4: "\<not> inlist (to_event (get_wdata s4 cur)) \<and> occurred (to_event (get_wdata s4 cur)) \<and>
                active (get_wdata s4 cur)"
        by (simp add: s4_def Let_def fibril_add_ready_def get_wdata_upd_wdata set_occurred_def
            set_inlist_def set_active_def)
      have "timeout_inv s4 \<and> cur \<notin> set (timeout_list s4)"
        using "1.prems"(1)
      proof (rule timeout_inv_unlink)
        show "timeout_list s4 = remove1 cur (timeout_list s)" using Cons l4 by simp
        show "\<forall>r \<in> set (timeout_list s). r \<noteq> cur \<longrightarrow> get_wdata s4 r = get_wdata s r"
          using w4 by simp
      qed
      then have i4: "timeout_inv s4" and n4: "cur \<notin> set (timeout_list s4)" by simp_all
      have e: "expired_loop tv s = expired_loop tv s4"
        by (subst expired_loop.simps) (simp only: Cons False list.case if_False s4_def Let_def)
      show ?thesis
      proof (cases "r = cur")
        case True
        with expired_loop_untouched [OF n4, of tv] c4 e show ?thesis by simp
      next
        case False
        with "1.prems"(2) Cons l4 have r4: "r \<in> set (timeout_list s4)" by simp
        have ih: "timeout_inv s4 \<Longrightarrow> r \<in> set (timeout_list s4)
              \<Longrightarrow> r \<notin> set (timeout_list (expired_loop tv s4))
              \<Longrightarrow> \<not> inlist (to_event (get_wdata (expired_loop tv s4) r)) \<and>
                  occurred (to_event (get_wdata (expired_loop tv s4) r)) \<and>
                  active (get_wdata (expired_loop tv s4) r)"
          using "1.IH" [OF Cons \<open>\<not> tv_gt (expires_of s cur) tv\<close> refl refl refl refl]
          unfolding s4_def Let_def .
        from ih [OF i4 r4] "1.prems"(3) e show ?thesis by simp
      qed
    qed
  qed
qed

lemma handle_expired_timeouts_unlinked:
  assumes "timeout_inv s" and "r \<in> set (timeout_list s)"
    and "r \<notin> set (timeout_list (handle_expired_timeouts tv s))"
  shows "\<not> inlist (to_event (get_wdata (handle_expired_timeouts tv s) r)) \<and>
         occurred (to_event (get_wdata (handle_expired_timeouts tv s) r)) \<and>
         active (get_wdata (handle_expired_timeouts tv s) r)"
proof -
  from assms(1) have "timeout_inv (futex_down s)" by (simp add: futex_down_def)
  moreover from assms(2) have "r \<in> set (timeout_list (futex_down s))" by (simp add: futex_down_def)
  moreover from assms(3) have "r \<notin> set (timeout_list (expired_loop tv (futex_down s)))"
    by (simp add: handle_expired_timeouts_def futex_up_def)
  ultimately show ?thesis
    using expired_loop_unlinked [of "futex_down s" r tv]
    by (simp add: handle_expired_timeouts_def futex_up_def)
qed

lemma route_call_unlinked:
  assumes "r \<in> set (timeout_list s)" and "r \<notin> set (timeout_list (snd (route_call K cid icall ok s)))"
  shows "\<not> inlist (to_event (get_wdata (snd (route_call K cid icall ok s)) r)) \<and>
         active (get_wdata (snd (route_call K cid icall ok s)) r)"
  using assms
  by (auto simp add: route_call_def Let_def effect_defs split: option.splits if_splits)


text \<open>
  Claim C3, as amended. \<^verbatim>\<open>async_insert_timeout\<close> sets the \<^verbatim>\<open>inlist\<close> flag of the new
  awaiter, clears its \<^verbatim>\<open>occurred\<close> flag and links it behind the awaiters that expire
  strictly earlier and in front of all others: in front of the first entry whose deadline
  is greater than or equal to its own, hence in front of the awaiters with the same
  deadline that were inserted before it. Along every execution in which the scheduler
  and the allocator keep to their guarantees, the timeout list stays in order: the
  deadlines do not decrease from head to tail, no awaiter is linked twice, and every
  linked awaiter has its \<^verbatim>\<open>inlist\<close> flag set and is not active. An awaiter that
  \<^verbatim>\<open>handle_expired_timeouts\<close> or \<^verbatim>\<open>route_call\<close> unlinks has its \<^verbatim>\<open>inlist\<close> flag
  cleared and is active afterwards.
\<close>

theorem timeout_list_order:
  "timeout_list (async_insert_timeout wd s)
     = takeWhile (\<lambda>c. expires_of s c < expires_of s wd) (timeout_list s) @
       wd # dropWhile (\<lambda>c. expires_of s c < expires_of s wd) (timeout_list s) \<and>
   (\<forall>c \<in> set (timeout_list s). expires_of s c = expires_of s wd \<longrightarrow>
      c \<in> set (dropWhile (\<lambda>c. expires_of s c < expires_of s wd) (timeout_list s))) \<and>
   inlist (to_event (get_wdata (async_insert_timeout wd s) wd)) \<and>
   \<not> occurred (to_event (get_wdata (async_insert_timeout wd s) wd)) \<and>
   (timeout_inv s \<and> run_enabled K evs s \<longrightarrow> timeout_inv (run K evs s)) \<and>
   (timeout_inv s \<and> r \<in> set (timeout_list s) \<and>
    r \<notin> set (timeout_list (handle_expired_timeouts tv s)) \<longrightarrow>
      \<not> inlist (to_event (get_wdata (handle_expired_timeouts tv s) r)) \<and>
      occurred (to_event (get_wdata (handle_expired_timeouts tv s) r)) \<and>
      active (get_wdata (handle_expired_timeouts tv s) r)) \<and>
   (r \<in> set (timeout_list s) \<and> r \<notin> set (timeout_list (snd (route_call K cid icall ok s))) \<longrightarrow>
      \<not> inlist (to_event (get_wdata (snd (route_call K cid icall ok s)) r)) \<and>
      active (get_wdata (snd (route_call K cid icall ok s)) r))"
proof (intro conjI impI)
  show "timeout_list (async_insert_timeout wd s)
     = takeWhile (\<lambda>c. expires_of s c < expires_of s wd) (timeout_list s) @
       wd # dropWhile (\<lambda>c. expires_of s c < expires_of s wd) (timeout_list s)"
    by (simp add: async_insert_timeout_list timeout_walk_eq)
  show "\<forall>c \<in> set (timeout_list s). expires_of s c = expires_of s wd \<longrightarrow>
      c \<in> set (dropWhile (\<lambda>c. expires_of s c < expires_of s wd) (timeout_list s))"
  proof (intro ballI impI)
    fix c
    assume c: "c \<in> set (timeout_list s)" and e: "expires_of s c = expires_of s wd"
    have "set (timeout_list s)
        = set (takeWhile (\<lambda>c. expires_of s c < expires_of s wd) (timeout_list s)) \<union>
          set (dropWhile (\<lambda>c. expires_of s c < expires_of s wd) (timeout_list s))"
      by (metis set_append takeWhile_dropWhile_id)
    moreover from e have "c \<notin> set (takeWhile (\<lambda>c. expires_of s c < expires_of s wd) (timeout_list s))"
      by (auto dest: set_takeWhileD)
    ultimately show "c \<in> set (dropWhile (\<lambda>c. expires_of s c < expires_of s wd) (timeout_list s))"
      using c by blast
  qed
  show "inlist (to_event (get_wdata (async_insert_timeout wd s) wd))"
    by (simp add: async_insert_timeout_wdata)
  show "\<not> occurred (to_event (get_wdata (async_insert_timeout wd s) wd))"
    by (simp add: async_insert_timeout_wdata set_inlist_def set_occurred_def)
next
  assume "timeout_inv s \<and> run_enabled K evs s"
  then show "timeout_inv (run K evs s)" by (simp add: run_inv)
next
  assume a: "timeout_inv s \<and> r \<in> set (timeout_list s) \<and>
    r \<notin> set (timeout_list (handle_expired_timeouts tv s))"
  then have "\<not> inlist (to_event (get_wdata (handle_expired_timeouts tv s) r)) \<and>
      occurred (to_event (get_wdata (handle_expired_timeouts tv s) r)) \<and>
      active (get_wdata (handle_expired_timeouts tv s) r)"
    by (intro handle_expired_timeouts_unlinked) simp_all
  then show "\<not> inlist (to_event (get_wdata (handle_expired_timeouts tv s) r))"
    and "occurred (to_event (get_wdata (handle_expired_timeouts tv s) r))"
    and "active (get_wdata (handle_expired_timeouts tv s) r)" by simp_all
next
  assume a: "r \<in> set (timeout_list s) \<and> r \<notin> set (timeout_list (snd (route_call K cid icall ok s)))"
  then have "\<not> inlist (to_event (get_wdata (snd (route_call K cid icall ok s)) r)) \<and>
      active (get_wdata (snd (route_call K cid icall ok s)) r)"
    by (intro route_call_unlinked) simp_all
  then show "\<not> inlist (to_event (get_wdata (snd (route_call K cid icall ok s)) r))"
    and "active (get_wdata (snd (route_call K cid icall ok s)) r)" by simp_all
qed

lemma timeout_inv_state_idle_conn: "timeout_inv state_idle_conn"
  by (simp add: timeout_inv_def state_idle_conn_def state_zero_def)

text \<open>
  An execution on concrete values: the connection fibril waits for a call with a timeout,
  two fibrils go to sleep, a call arrives for the connection and unlinks its awaiter, the
  connection fibril continues, and the earlier of the two sleepers expires.
\<close>

theorem timeout_list_order_witness:
  "timeout_inv state_idle_conn \<and>
   run_enabled ipc_h_example
       [GET_CALL 1 50 100, USLEEP 10 2 100 5, USLEEP 5 3 100 6, HANDLE_CALL 16 (user_call 1) env_ok,
        GET_CALL_RESUME 1 50, EXPIRED_TIMEOUTS 107] state_idle_conn \<and>
   timeout_list (run ipc_h_example
       [GET_CALL 1 50 100, USLEEP 10 2 100 5, USLEEP 5 3 100 6] state_idle_conn)
     = [Amsg_wdata 3, Amsg_wdata 2, Conn_wdata 1] \<and>
   map (expires_of (run ipc_h_example
       [GET_CALL 1 50 100, USLEEP 10 2 100 5, USLEEP 5 3 100 6] state_idle_conn))
       [Amsg_wdata 3, Amsg_wdata 2, Conn_wdata 1] = [105, 110, 150] \<and>
   timeout_list (run ipc_h_example
       [GET_CALL 1 50 100, USLEEP 10 2 100 5, USLEEP 5 3 100 6, HANDLE_CALL 16 (user_call 1) env_ok]
       state_idle_conn)
     = [Amsg_wdata 3, Amsg_wdata 2] \<and>
   timeout_list (run ipc_h_example
       [GET_CALL 1 50 100, USLEEP 10 2 100 5, USLEEP 5 3 100 6, HANDLE_CALL 16 (user_call 1) env_ok,
        GET_CALL_RESUME 1 50, EXPIRED_TIMEOUTS 107] state_idle_conn)
     = [Amsg_wdata 2] \<and>
   timeout_inv (run ipc_h_example
       [GET_CALL 1 50 100, USLEEP 10 2 100 5, USLEEP 5 3 100 6, HANDLE_CALL 16 (user_call 1) env_ok,
        GET_CALL_RESUME 1 50, EXPIRED_TIMEOUTS 107] state_idle_conn) \<and>
   timeout_list (handle_expired_timeouts 107 (run ipc_h_example
       [GET_CALL 1 50 100, USLEEP 10 2 100 5, USLEEP 5 3 100 6] state_idle_conn))
     = [Amsg_wdata 2, Conn_wdata 1] \<and>
   \<not> inlist (to_event (get_wdata (handle_expired_timeouts 107 (run ipc_h_example
       [GET_CALL 1 50 100, USLEEP 10 2 100 5, USLEEP 5 3 100 6] state_idle_conn)) (Amsg_wdata 3))) \<and>
   active (get_wdata (handle_expired_timeouts 107 (run ipc_h_example
       [GET_CALL 1 50 100, USLEEP 10 2 100 5, USLEEP 5 3 100 6] state_idle_conn)) (Amsg_wdata 3)) \<and>
   timeout_list (snd (route_call ipc_h_example 16 (user_call 1) True (run ipc_h_example
       [GET_CALL 1 50 100, USLEEP 10 2 100 5, USLEEP 5 3 100 6] state_idle_conn)))
     = [Amsg_wdata 3, Amsg_wdata 2] \<and>
   \<not> inlist (to_event (get_wdata (snd (route_call ipc_h_example 16 (user_call 1) True (run ipc_h_example
       [GET_CALL 1 50 100, USLEEP 10 2 100 5, USLEEP 5 3 100 6] state_idle_conn))) (Conn_wdata 1))) \<and>
   active (get_wdata (snd (route_call ipc_h_example 16 (user_call 1) True (run ipc_h_example
       [GET_CALL 1 50 100, USLEEP 10 2 100 5, USLEEP 5 3 100 6] state_idle_conn))) (Conn_wdata 1)) \<and>
   Amsg_wdata 2 \<in> set (dropWhile
       (\<lambda>c. expires_of (run ipc_h_example
                [GET_CALL 1 50 100, USLEEP 10 2 100 5, USLEEP 5 3 100 6] state_idle_conn) c
            < expires_of (run ipc_h_example
                [GET_CALL 1 50 100, USLEEP 10 2 100 5, USLEEP 5 3 100 6] state_idle_conn) (Amsg_wdata 2))
       (timeout_list (run ipc_h_example
                [GET_CALL 1 50 100, USLEEP 10 2 100 5, USLEEP 5 3 100 6] state_idle_conn)))"
proof -
  let ?evs = "[GET_CALL 1 50 100, USLEEP 10 2 100 5, USLEEP 5 3 100 6, HANDLE_CALL 16 (user_call 1) env_ok,
        GET_CALL_RESUME 1 50, EXPIRED_TIMEOUTS 107]"
  have e: "run_enabled ipc_h_example ?evs state_idle_conn" by code_simp
  have l1: "timeout_list (run ipc_h_example
       [GET_CALL 1 50 100, USLEEP 10 2 100 5, USLEEP 5 3 100 6] state_idle_conn)
     = [Amsg_wdata 3, Amsg_wdata 2, Conn_wdata 1]" by code_simp
  have x1: "map (expires_of (run ipc_h_example
       [GET_CALL 1 50 100, USLEEP 10 2 100 5, USLEEP 5 3 100 6] state_idle_conn))
       [Amsg_wdata 3, Amsg_wdata 2, Conn_wdata 1] = [105, 110, 150]" by code_simp
  have l2: "timeout_list (run ipc_h_example
       [GET_CALL 1 50 100, USLEEP 10 2 100 5, USLEEP 5 3 100 6, HANDLE_CALL 16 (user_call 1) env_ok]
       state_idle_conn)
     = [Amsg_wdata 3, Amsg_wdata 2]" by code_simp
  have l3: "timeout_list (run ipc_h_example ?evs state_idle_conn) = [Amsg_wdata 2]" by code_simp
  from timeout_list_order [of "Amsg_wdata 2" state_idle_conn ipc_h_example ?evs]
    timeout_inv_state_idle_conn e
  have i: "timeout_inv (run ipc_h_example ?evs state_idle_conn)" by blast
  let ?evs3 = "[GET_CALL 1 50 100, USLEEP 10 2 100 5, USLEEP 5 3 100 6]"
  let ?s3 = "run ipc_h_example ?evs3 state_idle_conn"
  have e3: "run_enabled ipc_h_example ?evs3 state_idle_conn" by code_simp
  from timeout_list_order [of "Amsg_wdata 2" state_idle_conn ipc_h_example ?evs3]
    timeout_inv_state_idle_conn e3
  have i3: "timeout_inv ?s3" by blast
  have m3: "Amsg_wdata 3 \<in> set (timeout_list ?s3)" "Conn_wdata 1 \<in> set (timeout_list ?s3)"
    "Amsg_wdata 2 \<in> set (timeout_list ?s3)"
    unfolding l1 by simp_all
  have l4: "timeout_list (handle_expired_timeouts 107 ?s3) = [Amsg_wdata 2, Conn_wdata 1]"
    by code_simp
  then have n4: "Amsg_wdata 3 \<notin> set (timeout_list (handle_expired_timeouts 107 ?s3))" by simp
  from timeout_list_order [where s = ?s3 and r = "Amsg_wdata 3" and tv = 107] i3 m3(1) n4
  have x4: "\<not> inlist (to_event (get_wdata (handle_expired_timeouts 107 ?s3) (Amsg_wdata 3)))"
    and a4: "active (get_wdata (handle_expired_timeouts 107 ?s3) (Amsg_wdata 3))" by blast+
  have l5: "timeout_list (snd (route_call ipc_h_example 16 (user_call 1) True ?s3))
      = [Amsg_wdata 3, Amsg_wdata 2]" by code_simp
  then have n5: "Conn_wdata 1 \<notin> set (timeout_list (snd (route_call ipc_h_example 16 (user_call 1) True ?s3)))"
    by simp
  from timeout_list_order [where s = ?s3 and r = "Conn_wdata 1" and K = ipc_h_example and cid = 16
      and icall = "user_call 1" and ok = True] m3(2) n5
  have x5: "\<not> inlist (to_event (get_wdata (snd (route_call ipc_h_example 16 (user_call 1) True ?s3))
      (Conn_wdata 1)))"
    and a5: "active (get_wdata (snd (route_call ipc_h_example 16 (user_call 1) True ?s3)) (Conn_wdata 1))"
    by blast+
  from timeout_list_order [where s = ?s3 and wd = "Amsg_wdata 2"] m3(3)
  have t6: "Amsg_wdata 2 \<in> set (dropWhile
       (\<lambda>c. expires_of ?s3 c < expires_of ?s3 (Amsg_wdata 2)) (timeout_list ?s3))" by blast
  from timeout_inv_state_idle_conn e l1 x1 l2 l3 i l4 x4 a4 l5 x5 a5 t6 show ?thesis by blast
qed

text \<open>
  The claim as it was stated keeps awaiters with equal deadlines in insertion order, and
  has the \<^verbatim>\<open>inlist\<close> flag set exactly on the linked awaiters. Here fibril 5 and then
  fibril 6 go to sleep with the same deadline: the awaiter of fibril 6, inserted last, is
  first in the list, and the expiry wakes fibril 6 before fibril 5. And a message that is
  waited for with a timeout and then replied to is unlinked by \<^verbatim>\<open>reply_received\<close> with
  its flag still set.
\<close>

theorem timeout_list_order_counterexample:
  "timeout_list (run ipc_h_example [USLEEP 10 2 100 5, USLEEP 10 3 100 6] state_zero)
     = [Amsg_wdata 3, Amsg_wdata 2] \<and>
   map (expires_of (run ipc_h_example [USLEEP 10 2 100 5, USLEEP 10 3 100 6] state_zero))
       [Amsg_wdata 3, Amsg_wdata 2] = [110, 110] \<and>
   readied (run ipc_h_example [USLEEP 10 2 100 5, USLEEP 10 3 100 6, EXPIRED_TIMEOUTS 110] state_zero)
     = [6, 5] \<and>
   timeout_list (run ipc_h_example
       [SEND_FAST 1 1024 0 0 0 0 0 2, WAIT_TIMEOUT 2 True 10 100 5, REPLY_RECEIVED 2 0 None] state_zero)
     = [] \<and>
   inlist (to_event (wdata (amsgs (run ipc_h_example
       [SEND_FAST 1 1024 0 0 0 0 0 2, WAIT_TIMEOUT 2 True 10 100 5, REPLY_RECEIVED 2 0 None] state_zero) 2)))"
  by code_simp

end
